theory Spec2Isabelle
  imports Complex_Main "HOL-Library.Sublist"
begin


section \<open>JavaScript values\<close>

text \<open>
  A payload read from disk is what \<^verbatim>\<open>JSON.parse\<close> returns.  An object is kept as the
  list of its own enumerable entries in enumeration order (the order of
  \<^verbatim>\<open>for (key in obj)\<close> and of \<^verbatim>\<open>JSON.stringify\<close>).  Numbers are only passed through
  or compared, never computed with, so integers stand for them (a number of magnitude
  1e21 or more, which JavaScript prints with an exponent, is outside the model).
\<close>

datatype json =
    JNull
  | JBool bool
  | JNum int
  | JStr string
  | JArr "json list"
  | JObj "(string \<times> json) list"

text \<open>The decimal text of a number, as a template string prints an integer.\<close>

function show_nat :: "nat \<Rightarrow> string" where
  "show_nat n =
     (if n < 10 then [''0123456789'' ! n]
      else show_nat (n div 10) @ [''0123456789'' ! (n mod 10)])"
  by pat_completeness auto
termination
  by (relation "measure id") auto

definition show_int :: "int \<Rightarrow> string" where
  "show_int i = (if i < 0 then CHR ''-'' # show_nat (nat (- i)) else show_nat (nat i))"

text \<open>
  The order of the keys of an object.  A key that is an array index (the decimal text,
  without leading zeros, of a number below \<open>2\<^sup>3\<^sup>2 - 1\<close>) comes before every other key,
  the array indices in ascending order; the other keys follow in the order in which
  they were created.  \<open>assign\<close> is \<^verbatim>\<open>obj[k] = v\<close> on the entries of an ordinary
  object: a key that is present keeps its place and takes the new value.
\<close>

definition dec_value :: "string \<Rightarrow> nat" where
  "dec_value k = foldl (\<lambda>n c. 10 * n + (of_char c - 48)) 0 k"

definition array_index :: "string \<Rightarrow> nat option" where
  "array_index k =
     (if k \<noteq> [] \<and> (\<forall>c \<in> set k. c \<in> set ''0123456789'')
          \<and> (k = ''0'' \<or> hd k \<noteq> CHR ''0'') \<and> dec_value k < 4294967295
      then Some (dec_value k) else None)"

fun insert_index :: "nat \<Rightarrow> string \<times> 'a \<Rightarrow> (string \<times> 'a) list \<Rightarrow> (string \<times> 'a) list" where
  "insert_index n e [] = [e]"
| "insert_index n e (x # xs) =
     (case array_index (fst x) of
        Some m \<Rightarrow> if m < n then x # insert_index n e xs else e # x # xs
      | None \<Rightarrow> e # x # xs)"

definition assign :: "(string \<times> 'a) list \<Rightarrow> string \<times> 'a \<Rightarrow> (string \<times> 'a) list" where
  "assign kvs e =
     (if fst e \<in> fst ` set kvs then map (\<lambda>x. if fst x = fst e then e else x) kvs
      else case array_index (fst e) of
             Some n \<Rightarrow> insert_index n e kvs
           | None \<Rightarrow> kvs @ [e])"

text \<open>
  A value as \<^verbatim>\<open>redactObject\<close> takes and returns it.  Besides its own entries an object
  has a prototype: \<open>None\<close> for the ordinary one (\<^verbatim>\<open>Object.prototype\<close>), or the value an
  assignment to \<^verbatim>\<open>__proto__\<close> has put there (an object, an array, or null).
\<close>

datatype jsval =
    VNull
  | VBool bool
  | VNum int
  | VStr string
  | VArr "jsval list"
  | VObj "(string \<times> jsval) list" "jsval option"

section \<open>SecretRedactor\<close>

subsection \<open>The regular expressions of PATTERNS\<close>

text \<open>
  The four expressions of \<^verbatim>\<open>SecretRedactor.PATTERNS\<close> are sequences of three kinds of
  item: a literal, one character out of a set, and a character class repeated at
  least n times.
\<close>

datatype cls = Alnum | AlnumDashUnderscore

definition alnum :: "char \<Rightarrow> bool" where
  "alnum c = (c \<in> set ''abcdefghijklmnopqrstuvwxyzABCDEFGHIJKLMNOPQRSTUVWXYZ0123456789'')"

fun in_cls :: "cls \<Rightarrow> char \<Rightarrow> bool" where
  "in_cls Alnum c = alnum c"
| "in_cls AlnumDashUnderscore c = (alnum c \<or> c = CHR ''_'' \<or> c = CHR ''-'')"

datatype rx = Lit string | OneOf string | AtLeast nat cls

type_synonym pattern = "rx list"

definition sk_pattern :: pattern where
  "sk_pattern = [Lit ''sk-'', AtLeast 20 Alnum]"

definition ghp_pattern :: pattern where
  "ghp_pattern = [Lit ''ghp_'', AtLeast 20 Alnum]"

definition jwt_pattern :: pattern where
  "jwt_pattern =
     [Lit ''eyJ'', AtLeast 10 AlnumDashUnderscore, Lit ''.'',
      AtLeast 10 AlnumDashUnderscore, Lit ''.'', AtLeast 10 AlnumDashUnderscore]"

definition xox_pattern :: pattern where
  "xox_pattern = [Lit ''xox'', OneOf ''baprs'', Lit ''-'', AtLeast 10 Alnum]"

definition PATTERNS :: "pattern list" where
  "PATTERNS = [sk_pattern, ghp_pattern, jwt_pattern, xox_pattern]"

definition MASK :: string where
  "MASK = ''********''"

text \<open>The words an expression denotes: the substrings that "match the pattern".\<close>

fun item_lang :: "rx \<Rightarrow> string \<Rightarrow> bool" where
  "item_lang (Lit l) w = (w = l)"
| "item_lang (OneOf cs) w = (case w of [c] \<Rightarrow> c \<in> set cs | _ \<Rightarrow> False)"
| "item_lang (AtLeast n k) w = (n \<le> length w \<and> list_all (in_cls k) w)"

fun pat_lang :: "pattern \<Rightarrow> string \<Rightarrow> bool" where
  "pat_lang [] w = (w = [])"
| "pat_lang (r # rs) w =
     (\<exists>k \<in> set [0..<Suc (length w)]. item_lang r (take k w) \<and> pat_lang rs (drop k w))"

definition has_match :: "pattern \<Rightarrow> string \<Rightarrow> bool" where
  "has_match P s = (\<exists>u \<in> set (suffixes s). \<exists>w \<in> set (prefixes u). pat_lang P w)"

text \<open>
  What the regular-expression engine does at one position: the items are tried in
  order and a repetition is greedy.  In each of the four expressions a repetition is
  last or is followed by a literal whose first character is outside the repeated
  class, so giving characters back can never help and the engine's backtracking is
  left out.  The result is the rest of the text after the match.
\<close>

fun rx_match :: "pattern \<Rightarrow> string \<Rightarrow> string option" where
  "rx_match [] s = Some s"
| "rx_match (Lit l # rs) s =
     (if take (length l) s = l then rx_match rs (drop (length l) s) else None)"
| "rx_match (OneOf cs # rs) s =
     (case s of [] \<Rightarrow> None | c # t \<Rightarrow> if c \<in> set cs then rx_match rs t else None)"
| "rx_match (AtLeast n k # rs) s =
     (if n \<le> length (takeWhile (in_cls k) s) then rx_match rs (dropWhile (in_cls k) s)
      else None)"

text \<open>
  \<^verbatim>\<open>text.replace(pattern, '********')\<close> with a global expression: scan from the left,
  replace a match and go on after it, copy a character where nothing matches.  An
  empty match (none of the four expressions has one) is replaced and the scan moves
  one character on.
\<close>

fun replace_all :: "pattern \<Rightarrow> string \<Rightarrow> string" where
  "replace_all P [] = (if rx_match P [] = None then [] else MASK)"
| "replace_all P (c # s) =
     (case rx_match P (c # s) of
        None \<Rightarrow> c # replace_all P s
      | Some r \<Rightarrow>
          if length r < Suc (length s) then MASK @ replace_all P r
          else MASK @ c # replace_all P s)"

definition redact :: "string \<Rightarrow> string" where
  "redact text = (if text = [] then text else foldl (\<lambda>redacted P. replace_all P redacted) text PATTERNS)"

subsection \<open>redactObject\<close>

text \<open>
  Case-insensitive matching without the unicode flag folds the ASCII letters only: a
  character outside ASCII never matches an ASCII letter of the expression.
\<close>

definition lower :: "char \<Rightarrow> char" where
  "lower c =
     (case map_of (zip ''ABCDEFGHIJKLMNOPQRSTUVWXYZ'' ''abcdefghijklmnopqrstuvwxyz'') c of
        None \<Rightarrow> c | Some l \<Rightarrow> l)"

fun str_includes :: "'a list \<Rightarrow> 'a list \<Rightarrow> bool" where
  "str_includes [] sub = (sub = [])"
| "str_includes (c # s) sub = (prefix sub (c # s) \<or> str_includes s sub)"

text \<open>\<^verbatim>\<open>/key|token|secret|password|auth/i.test(key)\<close>: an unanchored, case-insensitive search.\<close>

definition is_secret_key :: "string \<Rightarrow> bool" where
  "is_secret_key k =
     (\<exists>w \<in> set [''key'', ''token'', ''secret'', ''password'', ''auth'']. str_includes (map lower k) w)"

text \<open>
  \<^verbatim>\<open>for (const key in obj)\<close> with the value \<^verbatim>\<open>obj[key]\<close> read at each key: the own
  entries, then the enumerable entries inherited from the prototype that no own key
  shadows.
\<close>

fun for_in :: "jsval \<Rightarrow> (string \<times> jsval) list" where
  "for_in (VObj own None) = own"
| "for_in (VObj own (Some p)) = own @ filter (\<lambda>kv. fst kv \<notin> fst ` set own) (for_in p)"
| "for_in (VArr xs) = zip (map show_nat [0 ..< length xs]) xs"
| "for_in v = []"

text \<open>
  \<^verbatim>\<open>newObj[key] = value\<close> on the object under construction (own entries and
  prototype).  For the key \<^verbatim>\<open>__proto__\<close> the assignment reaches the setter inherited
  from \<^verbatim>\<open>Object.prototype\<close>: an object, an array or null becomes the prototype, any
  other value is dropped, and no own entry is made.  (When the prototype chain no
  longer ends in \<^verbatim>\<open>Object.prototype\<close>, or an own entry of that name exists, the
  assignment is an ordinary one.)
\<close>

fun object_chain :: "jsval \<Rightarrow> bool" where
  "object_chain (VObj own None) = True"
| "object_chain (VObj own (Some p)) = object_chain p"
| "object_chain (VArr xs) = True"
| "object_chain v = False"

fun object_or_null :: "jsval \<Rightarrow> bool" where
  "object_or_null VNull = True"
| "object_or_null (VArr xs) = True"
| "object_or_null (VObj own proto) = True"
| "object_or_null v = False"

definition set_prop ::
  "(string \<times> jsval) list \<times> jsval option \<Rightarrow> string \<times> jsval
     \<Rightarrow> (string \<times> jsval) list \<times> jsval option" where
  "set_prop newObj kv =
     (case newObj of
        (own, proto) \<Rightarrow>
          if fst kv = ''__proto__'' \<and> ''__proto__'' \<notin> fst ` set own
               \<and> (case proto of None \<Rightarrow> True | Some p \<Rightarrow> object_chain p)
          then (if object_or_null (snd kv) then (own, Some (snd kv)) else (own, proto))
          else (assign own kv, proto))"

lemma size_entry: "kv \<in> set own \<Longrightarrow> size (snd kv) < Suc (size_list (size_prod (\<lambda>x. 0) size) own)"
  by (induction own) auto

lemma size_elem: "x \<in> set xs \<Longrightarrow> size x < Suc (size_list size xs)"
  by (induction xs) auto

lemma size_for_in: "kv \<in> set (for_in v) \<Longrightarrow> size (snd kv) < size v"
proof (induction v arbitrary: kv rule: for_in.induct)
  case (1 own)
  then show ?case using size_entry[of kv own] by simp
next
  case (2 own p)
  show ?case
  proof (cases "kv \<in> set own")
    case True
    then show ?thesis using size_entry[of kv own] by simp
  next
    case False
    then have "kv \<in> set (for_in p)" using "2.prems" by auto
    then have "size (snd kv) < size p" by (rule "2.IH")
    then show ?thesis by simp
  qed
next
  case (3 xs)
  then have "(fst kv, snd kv) \<in> set (zip (map show_nat [0 ..< length xs]) xs)" by simp
  then have "snd kv \<in> set xs" by (rule set_zip_rightD)
  then show ?case using size_elem[of "snd kv" xs] by simp
qed simp_all

function redactObject :: "jsval \<Rightarrow> jsval" where
  "redactObject (VStr s) = VStr (redact s)"
| "redactObject (VArr xs) = VArr (map redactObject xs)"
| "redactObject (VObj own proto) =
     (case foldl set_prop ([], None)
             (map (\<lambda>kv. (fst kv, if is_secret_key (fst kv) then VStr MASK
                                else redactObject (snd kv)))
                (for_in (VObj own proto))) of
        (own', proto') \<Rightarrow> VObj own' proto')"
| "redactObject VNull = VNull"
| "redactObject (VBool b) = VBool b"
| "redactObject (VNum n) = VNum n"
  by pat_completeness auto
termination
proof (relation "measure size")
  show "wf (measure size)" by simp
next
  fix xs :: "jsval list" and x
  assume "x \<in> set xs"
  then show "(x, VArr xs) \<in> measure size" using size_elem[of x xs] by simp
next
  fix own proto and kv :: "string \<times> jsval"
  assume "kv \<in> set (for_in (VObj own proto))"
  then show "(snd kv, VObj own proto) \<in> measure size"
    using size_for_in[of kv "VObj own proto"] by simp
qed

subsection \<open>Conditions on an expression under which the greedy matcher is exact\<close>

text \<open>
  A repetition is last, or the next item is a literal starting outside the class;
  no item can consume the mask character; the expression starts with a literal.
\<close>

fun greedy_ok :: "pattern \<Rightarrow> bool" where
  "greedy_ok [] = True"
| "greedy_ok (AtLeast n k # rs) =
     ((case rs of [] \<Rightarrow> True | Lit (x # _) # _ \<Rightarrow> \<not> in_cls k x | _ \<Rightarrow> False) \<and> greedy_ok rs)"
| "greedy_ok (_ # rs) = greedy_ok rs"

fun star_free_item :: "rx \<Rightarrow> bool" where
  "star_free_item (Lit l) = (CHR ''*'' \<notin> set l)"
| "star_free_item (OneOf cs) = (CHR ''*'' \<notin> set cs)"
| "star_free_item (AtLeast n k) = (\<not> in_cls k CHR ''*'')"

definition starts_lit :: "pattern \<Rightarrow> bool" where
  "starts_lit P = (case P of Lit (x # _) # _ \<Rightarrow> True | _ \<Rightarrow> False)"

definition good_pat :: "pattern \<Rightarrow> bool" where
  "good_pat P = (greedy_ok P \<and> list_all star_free_item P \<and> starts_lit P)"

subsection \<open>What a value contains, and what redaction is asked to do\<close>

text \<open>
  The string values, the entries (key and value) and the key names of a value, at
  any depth, the prototype included: what is looked at when a payload is said to be
  free of secrets.
\<close>

fun strings_of :: "jsval \<Rightarrow> string list" where
  "strings_of (VStr s) = [s]"
| "strings_of (VArr xs) = concat (map strings_of xs)"
| "strings_of (VObj own None) = concat (map (\<lambda>kv. strings_of (snd kv)) own)"
| "strings_of (VObj own (Some p)) = concat (map (\<lambda>kv. strings_of (snd kv)) own) @ strings_of p"
| "strings_of v = []"

fun entries_of :: "jsval \<Rightarrow> (string \<times> jsval) list" where
  "entries_of (VArr xs) = concat (map entries_of xs)"
| "entries_of (VObj own None) = own @ concat (map (\<lambda>kv. entries_of (snd kv)) own)"
| "entries_of (VObj own (Some p)) =
     own @ concat (map (\<lambda>kv. entries_of (snd kv)) own) @ entries_of p"
| "entries_of v = []"


definition secret_free :: "string \<Rightarrow> bool" where
  "secret_free s = (\<forall>P \<in> set PATTERNS. \<not> has_match P s)"


text \<open>
  A payload as \<^verbatim>\<open>JSON.parse\<close> returns it, no object of which has a key named
  \<^verbatim>\<open>__proto__\<close>: every object has the ordinary prototype and its entries are in the
  order of its keys (building the object entry by entry gives the same list).
\<close>

fun plain :: "jsval \<Rightarrow> bool" where
  "plain (VObj own proto) =
     (proto = None \<and> foldl assign [] own = own \<and> ''__proto__'' \<notin> fst ` set own
      \<and> (\<forall>kv \<in> set own. plain (snd kv)))"
| "plain (VArr xs) = (\<forall>x \<in> set xs. plain x)"
| "plain v = True"

text \<open>
  Redaction in the words of the specification: a string has its matches replaced, a
  sequence is redacted element by element, a mapping keeps its keys and each value is
  the mask under a key name matching the key expression and the redacted value
  otherwise; any other value is kept.
\<close>

fun redacted :: "jsval \<Rightarrow> jsval" where
  "redacted (VStr s) = VStr (redact s)"
| "redacted (VArr xs) = VArr (map redacted xs)"
| "redacted (VObj own proto) =
     VObj (map (\<lambda>kv. (fst kv, if is_secret_key (fst kv) then VStr MASK else redacted (snd kv))) own)
       proto"
| "redacted v = v"


section \<open>Run artifacts (DataTypes)\<close>

datatype StepPhase = Reason | Tool | Observe | Memory

datatype StepStatus = Ok | Error | Retry

text \<open>
  \<^verbatim>\<open>AgentStep\<close>; its field \<^verbatim>\<open>output\<close> is written \<open>output'\<close>, the plain name being
  reserved.
\<close>

record AgentStep =
  step_id :: int
  timestamp :: int
  phase :: StepPhase
  input :: json
  output' :: json
  state_ref :: string
  diff_ref :: "string option"
  status :: StepStatus
  duration :: "int option"
  semanticLabels :: "string list option"

text \<open>
  \<^verbatim>\<open>RunMeta\<close> with the \<^verbatim>\<open>tags\<close> that \<^verbatim>\<open>createSimulation\<close> adds to the object it writes
  (absent from the interface, optional in meta.json).
\<close>

record RunMeta =
  run_id :: string
  agent_version :: string
  llm :: string
  temperature :: real
  tools :: "string list"
  seed :: int
  created_at :: string
  tags :: "string list option"

type_synonym path = "string list"

record RunArtifacts =
  meta :: RunMeta
  steps :: "AgentStep list"
  path :: path

text \<open>What a JavaScript function of the model can throw.\<close>

datatype js_error = TypeError | SyntaxError | JsError string

text \<open>
  Two payloads are compared by \<^verbatim>\<open>JSON.stringify(a) === JSON.stringify(b)\<close>.  On
  values kept as above (entries in order) the serialisation determines the value, so
  the comparison is equality of the values, the order of the keys included.
\<close>

definition same_json :: "json \<Rightarrow> json \<Rightarrow> bool" where
  "same_json a b = (a = b)"

text \<open>
  Structural equality of payloads, as the specification compares them: mappings are
  equal when they have the same keys with structurally equal values, in whatever
  order the keys come; sequences are equal element by element.
\<close>

lemma size_json_entry:
  "x \<in> set xs \<Longrightarrow> size (snd x) < Suc (size_list (size_prod (\<lambda>k. 0) size) xs)"
  by (induction xs) auto

function struct_eq :: "json \<Rightarrow> json \<Rightarrow> bool" where
  "struct_eq (JObj xs) (JObj ys) =
     ((\<forall>x \<in> set xs. \<exists>y \<in> set ys. fst x = fst y \<and> struct_eq (snd x) (snd y))
      \<and> (\<forall>y \<in> set ys. \<exists>x \<in> set xs. fst x = fst y \<and> struct_eq (snd x) (snd y)))"
| "struct_eq (JArr xs) (JArr ys) =
     (length xs = length ys \<and> (\<forall>i < length xs. struct_eq (xs ! i) (ys ! i)))"
| "struct_eq JNull b = (b = JNull)"
| "struct_eq (JBool x) b = (b = JBool x)"
| "struct_eq (JNum n) b = (b = JNum n)"
| "struct_eq (JStr s) b = (b = JStr s)"
| "struct_eq (JArr xs) JNull = False"
| "struct_eq (JArr xs) (JBool y) = False"
| "struct_eq (JArr xs) (JNum m) = False"
| "struct_eq (JArr xs) (JStr t) = False"
| "struct_eq (JArr xs) (JObj ys) = False"
| "struct_eq (JObj xs) JNull = False"
| "struct_eq (JObj xs) (JBool y) = False"
| "struct_eq (JObj xs) (JNum m) = False"
| "struct_eq (JObj xs) (JStr t) = False"
| "struct_eq (JObj xs) (JArr ys) = False"
  by pat_completeness auto
termination
proof (relation "measure (\<lambda>(a, b). size a)")
  show "wf (measure (\<lambda>(a, b). size a))" by simp
next
  fix xs ys :: "(string \<times> json) list" and x y
  assume "x \<in> set xs"
  then show "((snd x, snd y), (JObj xs, JObj ys)) \<in> measure (\<lambda>(a, b). size a)"
    using size_json_entry[of x xs] by simp
next
  fix xs ys :: "(string \<times> json) list" and x y
  assume "x \<in> set xs"
  then show "((snd x, snd y), (JObj xs, JObj ys)) \<in> measure (\<lambda>(a, b). size a)"
    using size_json_entry[of x xs] by simp
next
  fix xs ys :: "json list" and i
  assume "i < length xs"
  then have "xs ! i \<in> set xs" by simp
  then have "size (xs ! i) < Suc (size_list size xs)"
    using size_list_estimation'[of "xs ! i" xs "size (xs ! i)" size] by simp
  then show "((xs ! i, ys ! i), (JArr xs, JArr ys)) \<in> measure (\<lambda>(a, b). size a)" by simp
qed

section \<open>ComparisonEngine\<close>

datatype MatchType = Exact | Phase | Mismatch

record Alignment =
  step1 :: "int option"
  step2 :: "int option"
  matchType :: MatchType

text \<open>
  \<^verbatim>\<open>alignSteps\<close>: the loop over \<^verbatim>\<open>i < max(|steps1|, |steps2|)\<close> reads both lists at
  the same index, a read past the end giving \<^verbatim>\<open>undefined\<close>; it is a recursion over
  both lists side by side.
\<close>

fun alignSteps :: "AgentStep list \<Rightarrow> AgentStep list \<Rightarrow> Alignment list" where
  "alignSteps (s1 # r1) (s2 # r2) =
     (if phase s1 = phase s2 \<and> same_json (input s1) (input s2)
      then \<lparr>step1 = Some (step_id s1), step2 = Some (step_id s2), matchType = Exact\<rparr>
      else if phase s1 = phase s2
      then \<lparr>step1 = Some (step_id s1), step2 = Some (step_id s2), matchType = Phase\<rparr>
      else \<lparr>step1 = Some (step_id s1), step2 = Some (step_id s2), matchType = Mismatch\<rparr>)
     # alignSteps r1 r2"
| "alignSteps (s1 # r1) [] =
     \<lparr>step1 = Some (step_id s1), step2 = None, matchType = Mismatch\<rparr> # alignSteps r1 []"
| "alignSteps [] (s2 # r2) =
     \<lparr>step1 = None, step2 = Some (step_id s2), matchType = Mismatch\<rparr> # alignSteps [] r2"
| "alignSteps [] [] = []"

text \<open>
  \<^verbatim>\<open>findDivergence\<close>: first the loop over the shared positions, then the check of
  the lengths.  \<^verbatim>\<open>steps1[min - 1]?.step_id || 0\<close> is 0 when there is no shared
  position (index -1) and when the identifier is 0.
\<close>

fun first_difference :: "AgentStep list \<Rightarrow> AgentStep list \<Rightarrow> int option" where
  "first_difference (s1 # r1) (s2 # r2) =
     (if \<not> same_json (input s1) (input s2) then Some (step_id s1)
      else if \<not> same_json (output' s1) (output' s2) then Some (step_id s1)
      else first_difference r1 r2)"
| "first_difference _ _ = None"

definition findDivergence :: "AgentStep list \<Rightarrow> AgentStep list \<Rightarrow> int option" where
  "findDivergence steps1 steps2 =
     (case first_difference steps1 steps2 of
        Some d \<Rightarrow> Some d
      | None \<Rightarrow>
          if length steps1 \<noteq> length steps2 then
            (let m = min (length steps1) (length steps2)
             in if m = 0 then Some 0
                else if step_id (steps1 ! (m - 1)) = 0 then Some 0
                else Some (step_id (steps1 ! (m - 1))))
          else None)"

section \<open>AnalysisEngine\<close>

record RootCauseAnalysis =
  failureStepId :: int
  causalChain :: "int list"
  confidence :: real
  description :: string

fun findIndex :: "('a \<Rightarrow> bool) \<Rightarrow> 'a list \<Rightarrow> nat option" where
  "findIndex p [] = None"
| "findIndex p (x # xs) =
     (if p x then Some 0 else (case findIndex p xs of None \<Rightarrow> None | Some i \<Rightarrow> Some (Suc i)))"

text \<open>
  \<^verbatim>\<open>analyzeFailure\<close>; \<^verbatim>\<open>findIndex\<close> returning -1 is \<open>None\<close>, and
  \<^verbatim>\<open>Math.max(0, firstErrorIndex - 3)\<close> is the truncating subtraction on \<open>nat\<close>.
\<close>

definition analyzeFailure :: "AgentStep list \<Rightarrow> RootCauseAnalysis option" where
  "analyzeFailure ss =
     (case findIndex (\<lambda>s. status s = Error) ss of
        None \<Rightarrow> None
      | Some firstErrorIndex \<Rightarrow>
          (let errorStep = ss ! firstErrorIndex;
               chain = map (\<lambda>i. step_id (ss ! i)) [firstErrorIndex - 3 ..< firstErrorIndex]
           in Some \<lparr>failureStepId = step_id errorStep,
                    causalChain = chain,
                    confidence = 0.8,
                    description = ''Failure detected at step '' @ show_int (step_id errorStep)
                      @ ''. Preceding steps suggest context exhaustion or invalid tool usage.''\<rparr>))"

text \<open>
  \<^verbatim>\<open>computeSemanticLabels\<close>.  \<^verbatim>\<open>step.input.toolName\<close> is any value or absent
  (reading it throws when the input is null).  A falsy one (absent, null, false, 0,
  the empty string) gives no tag; on a string \<^verbatim>\<open>includes\<close> is the substring test, on
  an array the membership test; any other truthy value has no \<^verbatim>\<open>includes\<close> and the
  call throws.
\<close>

fun get_prop :: "json \<Rightarrow> string \<Rightarrow> json option" where
  "get_prop (JObj kvs) k = map_of kvs k"
| "get_prop v k = None"

fun truthy :: "json option \<Rightarrow> bool" where
  "truthy None = False"
| "truthy (Some JNull) = False"
| "truthy (Some (JBool b)) = b"
| "truthy (Some (JNum n)) = (n \<noteq> 0)"
| "truthy (Some (JStr s)) = (s \<noteq> [])"
| "truthy (Some v) = True"

fun js_includes :: "json \<Rightarrow> string \<Rightarrow> js_error + bool" where
  "js_includes (JStr s) sub = Inr (str_includes s sub)"
| "js_includes (JArr xs) sub = Inr (JStr sub \<in> set xs)"
| "js_includes v sub = Inl TypeError"

text \<open>\<^verbatim>\<open>a.includes(x) || a.includes(y) || ...\<close>, left to right, stopping at the first true.\<close>

fun includes_any :: "json \<Rightarrow> string list \<Rightarrow> js_error + bool" where
  "includes_any v [] = Inr False"
| "includes_any v (sub # subs) =
     (case js_includes v sub of
        Inl e \<Rightarrow> Inl e
      | Inr b \<Rightarrow> if b then Inr True else includes_any v subs)"

definition tool_tags :: "json option \<Rightarrow> js_error + string list" where
  "tool_tags toolName =
     (if \<not> truthy toolName then Inr []
      else case includes_any (the toolName) [''search'', ''ls'', ''read''] of
             Inl e \<Rightarrow> Inl e
           | Inr b \<Rightarrow>
               if b then Inr [''exploration'']
               else (case includes_any (the toolName) [''write'', ''edit''] of
                       Inl e \<Rightarrow> Inl e
                     | Inr b' \<Rightarrow> if b' then Inr [''commitment''] else Inr []))"

definition step_tags :: "AgentStep list \<Rightarrow> nat \<Rightarrow> js_error + string list" where
  "step_tags ss i =
     (let step = ss ! i;
          retry = (if status step = Retry \<and> 0 < i \<and> status (ss ! (i - 1)) = Retry
                   then [''retry-loop''] else [])
      in if phase step = Tool then
           (if input step = JNull then Inl TypeError
            else case tool_tags (get_prop (input step) ''toolName'') of
                   Inl e \<Rightarrow> Inl e
                 | Inr ts \<Rightarrow> Inr (retry @ ts))
         else Inr retry)"

text \<open>
  The loop body for the indices still to visit; \<open>labels\<close> is the \<^verbatim>\<open>Map\<close> from step
  identifier to tags built so far.  The steps are only read.
\<close>

fun label_loop ::
  "AgentStep list \<Rightarrow> nat list \<Rightarrow> (int \<rightharpoonup> string list) \<Rightarrow> js_error + (int \<rightharpoonup> string list)" where
  "label_loop ss [] labels = Inr labels"
| "label_loop ss (i # is) labels =
     (case step_tags ss i of
        Inl e \<Rightarrow> Inl e
      | Inr ts \<Rightarrow>
          label_loop ss is (if ts \<noteq> [] then labels(step_id (ss ! i) \<mapsto> ts) else labels))"

definition computeSemanticLabels :: "AgentStep list \<Rightarrow> js_error + (int \<rightharpoonup> string list)" where
  "computeSemanticLabels ss = label_loop ss [0 ..< length ss] Map.empty"

text \<open>
  Two steps carry the same payloads as the code compares them (equal serialisation of
  input and of output), and as the specification does (structurally equal input and
  output).
\<close>

definition same_payloads :: "AgentStep \<Rightarrow> AgentStep \<Rightarrow> bool" where
  "same_payloads a b = (same_json (input a) (input b) \<and> same_json (output' a) (output' b))"

definition same_struct_payloads :: "AgentStep \<Rightarrow> AgentStep \<Rightarrow> bool" where
  "same_struct_payloads a b =
     (struct_eq (input a) (input b) \<and> struct_eq (output' a) (output' b))"

text \<open>A step record with the given identifier, phase, payloads and status, for examples.\<close>

definition mk_step :: "int \<Rightarrow> StepPhase \<Rightarrow> json \<Rightarrow> json \<Rightarrow> StepStatus \<Rightarrow> AgentStep" where
  "mk_step n ph i out st =
     \<lparr>step_id = n, timestamp = 1000 * n, phase = ph, input = i, output' = out,
      state_ref = ''snapshots/step_'' @ show_int n @ ''.json'', diff_ref = None, status = st,
      duration = None, semanticLabels = None\<rparr>"

text \<open>
  The tool name of a step as the labelling reads it, for stating what the labels
  are: the string under \<^verbatim>\<open>input.toolName\<close>, empty when there is none.
\<close>

definition toolName_of :: "AgentStep \<Rightarrow> string" where
  "toolName_of s = (case get_prop (input s) ''toolName'' of Some (JStr n) \<Rightarrow> n | _ \<Rightarrow> [])"

text \<open>The input is an object and its tool name, when it has one, a string.\<close>

definition toolName_typed :: "AgentStep \<Rightarrow> bool" where
  "toolName_typed s =
     (input s \<noteq> JNull \<and>
      (case get_prop (input s) ''toolName'' of
         None \<Rightarrow> True | Some (JStr n) \<Rightarrow> True | Some v \<Rightarrow> False))"

definition exploring :: "string \<Rightarrow> bool" where
  "exploring n = (str_includes n ''search'' \<or> str_includes n ''ls'' \<or> str_includes n ''read'')"

definition committing :: "string \<Rightarrow> bool" where
  "committing n = (str_includes n ''write'' \<or> str_includes n ''edit'')"

definition tags_of :: "(int \<rightharpoonup> string list) \<Rightarrow> int \<Rightarrow> string list" where
  "tags_of labels k = (case labels k of None \<Rightarrow> [] | Some ts \<Rightarrow> ts)"

text \<open>The tags the step at index \<open>i\<close> is given, written out.\<close>

definition expected_tags :: "AgentStep list \<Rightarrow> nat \<Rightarrow> string list" where
  "expected_tags ss i =
     (if status (ss ! i) = Retry \<and> 0 < i \<and> status (ss ! (i - 1)) = Retry then [''retry-loop''] else [])
     @ (if phase (ss ! i) = Tool then
          (if exploring (toolName_of (ss ! i)) then [''exploration'']
           else if committing (toolName_of (ss ! i)) then [''commitment''] else [])
        else [])"

section \<open>Run directories on disk\<close>

text \<open>
  A path is its list of components: \<^verbatim>\<open>path.dirname\<close> drops the last one,
  \<^verbatim>\<open>path.join(p, name)\<close> appends one, and the text of a path is its components with
  \<^verbatim>\<open>/\<close> between them.  A file is kept as what its reader makes of it.
  \<^verbatim>\<open>meta.json\<close> holds a metadata object.  \<^verbatim>\<open>steps.jsonl\<close> is its list of lines (the
  pieces of \<^verbatim>\<open>content.split('\n')\<close>), each line being blank (nothing left after
  \<^verbatim>\<open>trim\<close>), text that \<^verbatim>\<open>JSON.parse\<close> rejects, the literal \<^verbatim>\<open>null\<close>, or the
  serialisation of a step record.  Two kinds of file are outside this model.  A line
  that parses to any other value (a string, a number, an object that is no step
  record) is kept by the loader among the steps, unchecked; \<open>log_line\<close> has no such
  line.  And what a reader makes of a file written for the other reader depends on
  the layout of its text, which the model does not carry; \<open>load\<close> below takes such a
  file as text that does not parse, which is right for some layouts only, and nothing
  proved below rests on that case.  Failures of the file system itself (permissions,
  a full disk) are not modelled.
\<close>

fun path_text :: "path \<Rightarrow> string" where
  "path_text [] = []"
| "path_text [c] = c"
| "path_text (c # cs) = c @ ''/'' @ path_text cs"

datatype log_line = Blank | Unparsable | ParsesNull | ParsesTo AgentStep

datatype content = MetaJson RunMeta | StepsJsonl "log_line list"

record filesystem =
  files :: "path \<rightharpoonup> content"
  dirs :: "path set"

definition existsSync :: "filesystem \<Rightarrow> path \<Rightarrow> bool" where
  "existsSync fs p = (p \<in> dom (files fs) \<or> p \<in> dirs fs)"

definition mkdirSync :: "filesystem \<Rightarrow> path \<Rightarrow> filesystem" where
  "mkdirSync fs p = fs\<lparr>dirs := insert p (dirs fs)\<rparr>"

definition writeFileSync :: "filesystem \<Rightarrow> path \<Rightarrow> content \<Rightarrow> filesystem" where
  "writeFileSync fs p c = fs\<lparr>files := (files fs)(p \<mapsto> c)\<rparr>"

definition ensure_dir :: "filesystem \<Rightarrow> path \<Rightarrow> filesystem" where
  "ensure_dir fs p = (if \<not> existsSync fs p then mkdirSync fs p else fs)"

section \<open>CounterfactualEngine\<close>

record modification =
  mod_input :: "json option"
  mod_output :: "json option"

text \<open>
  The object spread \<^verbatim>\<open>{...a, ...b}\<close>: the own enumerable entries of \<open>a\<close>, then those
  of \<open>b\<close>, each assigned in turn: a key already present keeps its place and takes
  the new value, a new key takes the place the order of keys gives it.  A string or
  an array spreads its indices.
\<close>

fun own_entries :: "json \<Rightarrow> (string \<times> json) list" where
  "own_entries (JObj kvs) = kvs"
| "own_entries (JArr xs) = zip (map show_nat [0 ..< length xs]) xs"
| "own_entries (JStr s) = zip (map show_nat [0 ..< length s]) (map (\<lambda>c. JStr [c]) s)"
| "own_entries v = []"

definition spread2 :: "json \<Rightarrow> json \<Rightarrow> json" where
  "spread2 a b = JObj (foldl assign (foldl assign [] (own_entries a)) (own_entries b))"


text \<open>
  The pivot step after step 3 of \<^verbatim>\<open>createSimulation\<close>: a truthy \<^verbatim>\<open>modification.input\<close>
  is spread over the input, likewise the output, and the status becomes retry.
\<close>

definition apply_modification :: "modification \<Rightarrow> AgentStep \<Rightarrow> AgentStep" where
  "apply_modification m targetStep =
     (let t1 = (if truthy (mod_input m)
                then targetStep\<lparr>input := spread2 (input targetStep) (the (mod_input m))\<rparr>
                else targetStep);
          t2 = (if truthy (mod_output m)
                then t1\<lparr>output' := spread2 (output' t1) (the (mod_output m))\<rparr>
                else t1)
      in t2\<lparr>status := Retry\<rparr>)"


section \<open>RunLoader\<close>

record RunLoader =
  runPath :: path
  loader_meta :: "RunMeta option"
  loader_steps :: "AgentStep list"
  loaded :: bool

definition new_RunLoader :: "path \<Rightarrow> RunLoader" where
  "new_RunLoader p = \<lparr>runPath = p, loader_meta = None, loader_steps = [], loaded = False\<rparr>"

text \<open>
  The pipeline on the lines of the step log: drop the blank lines, parse each line
  (a line that does not parse becomes null, with a warning), drop the nulls.
\<close>

definition parse_line :: "log_line \<Rightarrow> AgentStep option" where
  "parse_line l = (case l of ParsesTo s \<Rightarrow> Some s | _ \<Rightarrow> None)"

definition parse_lines :: "log_line list \<Rightarrow> AgentStep list" where
  "parse_lines ls = map the (filter (\<lambda>s. s \<noteq> None) (map parse_line (filter (\<lambda>l. l \<noteq> Blank) ls)))"

text \<open>
  \<^verbatim>\<open>load\<close>, on the loader and the file system; it returns the loader after, and the
  artifacts or the error thrown.  The result has the three fields of
  \<^verbatim>\<open>RunArtifacts\<close> and nothing else.
\<close>

definition load :: "filesystem \<Rightarrow> RunLoader \<Rightarrow> RunLoader \<times> (js_error + RunArtifacts)" where
  "load fs l =
     (if loaded l then
        (l, Inr \<lparr>meta = the (loader_meta l), steps = loader_steps l, path = runPath l\<rparr>)
      else
        (let metaPath = runPath l @ [''meta.json''] in
         if \<not> existsSync fs metaPath
         then (l, Inl (JsError (''meta.json not found in '' @ path_text (runPath l))))
         else case files fs metaPath of
                Some (MetaJson m) \<Rightarrow>
                  (let stepsPath = runPath l @ [''steps.jsonl''];
                       l1 = l\<lparr>loader_meta := Some m\<rparr>
                   in if \<not> existsSync fs stepsPath then
                        (l1\<lparr>loader_steps := [], loaded := True\<rparr>,
                         Inr \<lparr>meta = m, steps = [], path = runPath l\<rparr>)
                      else case files fs stepsPath of
                             Some (StepsJsonl ls) \<Rightarrow>
                               (l1\<lparr>loader_steps := parse_lines ls, loaded := True\<rparr>,
                                Inr \<lparr>meta = m, steps = parse_lines ls, path = runPath l\<rparr>)
                           | Some (MetaJson x) \<Rightarrow>
                               (l1\<lparr>loader_steps := [], loaded := True\<rparr>,
                                Inr \<lparr>meta = m, steps = [], path = runPath l\<rparr>)
                           | None \<Rightarrow> (l1, Inl (JsError ''EISDIR'')))
              | Some (StepsJsonl ls) \<Rightarrow> (l, Inl SyntaxError)
              | None \<Rightarrow> (l, Inl (JsError ''EISDIR''))))"

text \<open>
  An example: a simulation run with two steps, in the directory
  \<^verbatim>\<open>runs/run_1769726549771_sim\<close>, as \<^verbatim>\<open>createSimulation\<close> names its results.
\<close>

definition example_meta :: RunMeta where
  "example_meta =
     \<lparr>run_id = ''run_1769726549771_sim'', agent_version = ''1'', llm = ''m'', temperature = 0,
      tools = [''s''], seed = 0, created_at = ''2026-01-29T22:42:29.771Z'',
      tags = Some [''simulation'', ''from:run_1769726540000'']\<rparr>"

definition example_steps :: "AgentStep list" where
  "example_steps =
     [mk_step 1 Reason (JObj [(''p'', JStr ''hi'')]) (JObj [(''r'', JStr ''ok'')]) Ok,
      mk_step 2 Tool (JObj [(''q'', JNum 1)]) (JObj [(''result'', JStr ''R'')]) Ok]"

definition example_run :: RunArtifacts where
  "example_run =
     \<lparr>meta = example_meta, steps = example_steps, path = [''runs'', ''run_1769726549771_sim'']\<rparr>"

definition example_fs :: filesystem where
  "example_fs =
     \<lparr>files =
        [[''runs'', ''run_1769726549771_sim'', ''meta.json''] \<mapsto> MetaJson example_meta,
         [''runs'', ''run_1769726549771_sim'', ''steps.jsonl''] \<mapsto>
           StepsJsonl (map ParsesTo example_steps)],
      dirs = {[''runs''], [''runs'', ''run_1769726549771_sim'']}\<rparr>"

section \<open>ReplayEngine\<close>

text \<open>
  The types of the core (\<^verbatim>\<open>./types\<close>) are not among the sources; they are taken from
  their uses.  An \<^verbatim>\<open>AgentState\<close> is an object, kept as its entries, of which the engine
  reads \<^verbatim>\<open>status\<close>, \<^verbatim>\<open>currentStep\<close> and \<^verbatim>\<open>goal\<close>; reading a key gives the value or
  \<^verbatim>\<open>undefined\<close> (\<open>None\<close>).  The fields of a step are prefixed where the plain name
  is a field of \<open>AgentStep\<close> already.
\<close>

type_synonym AgentState = "(string \<times> json) list"

record StepMetadata =
  replayed :: bool
  originalStepNumber :: int

record Step =
  stepNumber :: int
  stepType :: string
  stepInput :: json
  stepOutput :: json
  stateSnapshot :: AgentState
  stepMetadata :: "StepMetadata option"

record TraceMetadata =
  toolsUsed :: "string list"
  replayedFrom :: "string option"

record Trace =
  traceId :: string
  agentId :: string
  taskId :: string
  traceStatus :: string
  traceSteps :: "Step list"
  finalState :: "AgentState option"
  metadata :: TraceMetadata

datatype DivergenceType = state_mismatch | output_mismatch | missing_step | extra_step

record Divergence =
  div_stepNumber :: int
  div_type :: DivergenceType
  expected :: "json option"
  actual :: "json option"
  message :: string

record ToolResult =
  success :: "json option"
  result :: "json option"
  error :: "json option"

text \<open>
  Modelled from the spec: the class \<^verbatim>\<open>TraceRecorder\<close> (\<^verbatim>\<open>./trace-recorder\<close>) is missing
  from the sources.  The spec has the secondary recorder append "a step for each
  original step, preserving phase, input, output, and snapshot verbatim, with metadata
  marking the step as replayed and the originating step identifier", step identifiers
  being consecutive from 1; \<^verbatim>\<open>finalize\<close> hands back the trace of the recorded steps
  with the given final state and status.
\<close>

record TraceRecorder =
  rec_agentId :: string
  rec_taskId :: string
  rec_steps :: "Step list"

definition new_TraceRecorder :: "string \<Rightarrow> string \<Rightarrow> TraceRecorder" where
  "new_TraceRecorder a t = \<lparr>rec_agentId = a, rec_taskId = t, rec_steps = []\<rparr>"

definition recordStep ::
  "TraceRecorder \<Rightarrow> string \<Rightarrow> json \<Rightarrow> json \<Rightarrow> AgentState \<Rightarrow> StepMetadata \<Rightarrow> TraceRecorder" where
  "recordStep r ty i out snap md =
     r\<lparr>rec_steps := rec_steps r @
        [\<lparr>stepNumber = int (length (rec_steps r)) + 1, stepType = ty, stepInput = i,
          stepOutput = out, stateSnapshot = snap, stepMetadata = Some md\<rparr>]\<rparr>"

definition finalize :: "TraceRecorder \<Rightarrow> AgentState \<Rightarrow> string \<Rightarrow> Trace" where
  "finalize r st status' =
     \<lparr>traceId = ''trace_replay'', agentId = rec_agentId r, taskId = rec_taskId r,
      traceStatus = status', traceSteps = rec_steps r, finalState = Some st,
      metadata = \<lparr>toolsUsed = [], replayedFrom = None\<rparr>\<rparr>"

record ReplayEngine =
  trace :: Trace
  currentStepIndex :: nat
  replayRecorder :: TraceRecorder
  replayState :: AgentState
  divergences :: "Divergence list"

text \<open>
  The constructor; \<open>initial\<close> stands for \<^verbatim>\<open>createInitialState(trace.taskId, '')\<close>, whose
  definition is missing.
\<close>

definition new_ReplayEngine :: "AgentState \<Rightarrow> Trace \<Rightarrow> ReplayEngine" where
  "new_ReplayEngine initial t =
     \<lparr>trace = t, currentStepIndex = 0,
      replayRecorder = new_TraceRecorder (agentId t) (taskId t),
      replayState = initial, divergences = []\<rparr>"

text \<open>
  \<^verbatim>\<open>findNextStep\<close>: the first step of the given type at or after the cursor; the
  cursor moves just past it.  \<open>find_from\<close> is the loop, on the steps from index \<open>i\<close> on.
\<close>

fun find_from :: "string \<Rightarrow> Step list \<Rightarrow> nat \<Rightarrow> (nat \<times> Step) option" where
  "find_from ty [] i = None"
| "find_from ty (s # rest) i = (if stepType s = ty then Some (i, s) else find_from ty rest (Suc i))"

definition findNextStep :: "ReplayEngine \<Rightarrow> string \<Rightarrow> ReplayEngine \<times> Step option" where
  "findNextStep e ty =
     (case find_from ty (drop (currentStepIndex e) (traceSteps (trace e))) (currentStepIndex e) of
        None \<Rightarrow> (e, None)
      | Some (i, s) \<Rightarrow> (e\<lparr>currentStepIndex := i + 1\<rparr>, Some s))"

text \<open>
  The \<^verbatim>\<open>execute\<close> of the replay tool made for \<open>toolName\<close> by \<^verbatim>\<open>createReplayTools\<close>, on
  the engine it closes over.  The parameters are not read.  Reading a property of a
  recorded input or output that is null throws (the promise is rejected).
\<close>

definition no_recorded_output :: "string \<Rightarrow> ToolResult" where
  "no_recorded_output toolName =
     \<lparr>success = Some (JBool False), result = Some JNull,
      error = Some (JStr (''No recorded output for tool: '' @ toolName))\<rparr>"

definition execute :: "ReplayEngine \<Rightarrow> string \<Rightarrow> json \<Rightarrow> ReplayEngine \<times> (js_error + ToolResult)" where
  "execute e toolName params =
     (case findNextStep e ''tool'' of
        (e', None) \<Rightarrow> (e', Inr (no_recorded_output toolName))
      | (e', Some toolStep) \<Rightarrow>
          if stepInput toolStep = JNull then (e', Inl TypeError)
          else if get_prop (stepInput toolStep) ''toolName'' \<noteq> Some (JStr toolName)
          then (e', Inr (no_recorded_output toolName))
          else if stepOutput toolStep = JNull then (e', Inl TypeError)
          else (e', Inr \<lparr>success = get_prop (stepOutput toolStep) ''success'',
                         result = get_prop (stepOutput toolStep) ''result'',
                         error = get_prop (stepOutput toolStep) ''error''\<rparr>))"

definition createReplayTools :: "ReplayEngine \<Rightarrow> (string \<times> string) list" where
  "createReplayTools e =
     map (\<lambda>toolName. (toolName, ''Replay mock for '' @ toolName)) (toolsUsed (metadata (trace e)))"

text \<open>
  \<^verbatim>\<open>compareStates\<close>: the keys are compared in order by the serialisation of their
  values; the first difference is pushed as a divergence and ends the comparison.
\<close>

fun compare_keys :: "ReplayEngine \<Rightarrow> AgentState \<Rightarrow> AgentState \<Rightarrow> string list \<Rightarrow> ReplayEngine \<times> bool" where
  "compare_keys e state1 state2 [] = (e, True)"
| "compare_keys e state1 state2 (key # keys) =
     (if map_of state1 key \<noteq> map_of state2 key then
        (e\<lparr>divergences := divergences e @
            [\<lparr>div_stepNumber = int (currentStepIndex e), div_type = state_mismatch,
              expected = map_of state1 key, actual = map_of state2 key,
              message = ''State mismatch in field: '' @ key\<rparr>]\<rparr>, False)
      else compare_keys e state1 state2 keys)"

definition compareStates :: "ReplayEngine \<Rightarrow> AgentState option \<Rightarrow> AgentState \<Rightarrow> ReplayEngine \<times> bool" where
  "compareStates e state1 state2 =
     (case state1 of
        None \<Rightarrow> (e, False)
      | Some s1 \<Rightarrow> compare_keys e s1 state2 [''status'', ''currentStep'', ''goal''])"

text \<open>\<^verbatim>\<open>replayStep\<close>, and the loop of \<^verbatim>\<open>replay\<close> over the steps of the trace.\<close>

definition replayStep :: "ReplayEngine \<Rightarrow> Step \<Rightarrow> ReplayEngine" where
  "replayStep e step =
     e\<lparr>replayRecorder :=
          recordStep (replayRecorder e) (stepType step) (stepInput step) (stepOutput step)
            (stateSnapshot step) \<lparr>replayed = True, originalStepNumber = stepNumber step\<rparr>,
       replayState := stateSnapshot step\<rparr>"

fun replay_loop :: "ReplayEngine \<Rightarrow> Step list \<Rightarrow> ReplayEngine" where
  "replay_loop e [] = e"
| "replay_loop e (step # rest) =
     replay_loop (replayStep (e\<lparr>currentStepIndex := currentStepIndex e + 1\<rparr>) step) rest"

record StepCount =
  original :: nat
  replay_count :: nat
  match :: bool

record ReplayResult =
  res_success :: bool
  originalTrace :: Trace
  replayTrace :: Trace
  res_finalState :: AgentState
  stateMatch :: bool
  stepCount :: StepCount
  res_divergences :: "Divergence list"

definition replay :: "ReplayEngine \<Rightarrow> ReplayEngine \<times> ReplayResult" where
  "replay e0 =
     (let e1 = e0\<lparr>currentStepIndex := 0, divergences := []\<rparr>;
          e2 = (case traceSteps (trace e1) of
                  [] \<Rightarrow> e1
                | firstStep # rest \<Rightarrow> e1\<lparr>replayState := stateSnapshot firstStep\<rparr>);
          e3 = replay_loop e2 (traceSteps (trace e2));
          t = finalize (replayRecorder e3) (replayState e3) ''completed'';
          replayTrace' = t\<lparr>traceStatus := ''replayed'',
                           metadata := (metadata t)\<lparr>replayedFrom := Some (traceId (trace e3))\<rparr>\<rparr>;
          original_final =
            (case finalState (trace e3) of
               Some f \<Rightarrow> Some f
             | None \<Rightarrow> (if traceSteps (trace e3) = [] then None
                        else Some (stateSnapshot (last (traceSteps (trace e3))))));
          (e4, stateMatch') = compareStates e3 original_final (replayState e3)
      in (e4,
          \<lparr>res_success = (divergences e4 = []),
           originalTrace = trace e4,
           replayTrace = replayTrace',
           res_finalState = replayState e4,
           stateMatch = stateMatch',
           stepCount = \<lparr>original = length (traceSteps (trace e4)),
                        replay_count = length (traceSteps replayTrace'),
                        match = (length (traceSteps (trace e4)) = length (traceSteps replayTrace'))\<rparr>,
           res_divergences = divergences e4\<rparr>))"

text \<open>A trace of one step whose recorded final state has moved on from the step's snapshot.\<close>

definition example_trace :: Trace where
  "example_trace =
     \<lparr>traceId = ''trace_1769726549771_nuv22w4cj'', agentId = ''demo-restaurant-agent'',
      taskId = ''task_1769726549771'', traceStatus = ''completed'',
      traceSteps =
        [\<lparr>stepNumber = 1, stepType = ''tool'',
          stepInput = JObj [(''toolName'', JStr ''search_restaurants'')],
          stepOutput = JObj [(''success'', JBool True), (''result'', JStr ''R'')],
          stateSnapshot = [(''status'', JStr ''running''), (''currentStep'', JNum 1), (''goal'', JStr ''book'')],
          stepMetadata = None\<rparr>],
      finalState = Some [(''status'', JStr ''completed''), (''currentStep'', JNum 1), (''goal'', JStr ''book'')],
      metadata = \<lparr>toolsUsed = [''search_restaurants'', ''book_restaurant''], replayedFrom = None\<rparr>\<rparr>"

section \<open>Properties of the matcher\<close>

lemma pat_lang_Cons:
  "pat_lang (r # rs) w = (\<exists>u v. w = u @ v \<and> item_lang r u \<and> pat_lang rs v)"
proof
  assume "pat_lang (r # rs) w"
  then obtain k where "item_lang r (take k w)" "pat_lang rs (drop k w)"
    unfolding pat_lang.simps by blast
  then show "\<exists>u v. w = u @ v \<and> item_lang r u \<and> pat_lang rs v"
    by (metis append_take_drop_id)
next
  assume "\<exists>u v. w = u @ v \<and> item_lang r u \<and> pat_lang rs v"
  then obtain u v where w: "w = u @ v" and u: "item_lang r u" and v: "pat_lang rs v" by blast
  have "length u \<in> set [0..<Suc (length w)]" using w by simp
  moreover have "item_lang r (take (length u) w)" "pat_lang rs (drop (length u) w)"
    using w u v by simp_all
  ultimately show "pat_lang (r # rs) w" unfolding pat_lang.simps by blast
qed

declare pat_lang.simps(2) [simp del]

lemma pat_lang_ConsI: "item_lang r u \<Longrightarrow> pat_lang rs v \<Longrightarrow> pat_lang (r # rs) (u @ v)"
  unfolding pat_lang_Cons by blast

lemma has_match_iff: "has_match P s = (\<exists>w. sublist w s \<and> pat_lang P w)"
proof
  assume "has_match P s"
  then obtain u w where "suffix u s" "prefix w u" "pat_lang P w"
    unfolding has_match_def by auto
  then show "\<exists>w. sublist w s \<and> pat_lang P w"
    unfolding sublist_altdef' by blast
next
  assume "\<exists>w. sublist w s \<and> pat_lang P w"
  then obtain w u where "suffix u s" "prefix w u" "pat_lang P w"
    unfolding sublist_altdef' by blast
  then have "u \<in> set (suffixes s)" "w \<in> set (prefixes u)" by simp_all
  with \<open>pat_lang P w\<close> show "has_match P s" unfolding has_match_def by blast
qed

lemma rx_match_suffix: "rx_match P s = Some r \<Longrightarrow> suffix r s"
proof (induction P s rule: rx_match.induct)
  case (1 s) then show ?case by simp
next
  case (2 l rs s)
  then have "suffix r (drop (length l) s)" by (simp split: if_splits)
  moreover have "suffix (drop (length l) s) s" by (rule suffix_drop)
  ultimately show ?case by (rule suffix_order.trans)
next
  case (3 cs rs s)
  then obtain c t where s: "s = c # t" and c: "c \<in> set cs" and m: "rx_match rs t = Some r"
    by (auto split: list.splits if_splits)
  from 3(1)[OF s c m] show ?case using s by (simp add: suffix_ConsI)
next
  case (4 n k rs s)
  then have "suffix r (dropWhile (in_cls k) s)" by (simp split: if_splits)
  moreover have "suffix (dropWhile (in_cls k) s) s" by (rule suffix_dropWhile)
  ultimately show ?case by (rule suffix_order.trans)
qed

lemma rx_match_sound: "rx_match P s = Some r \<Longrightarrow> \<exists>w. s = w @ r \<and> pat_lang P w"
proof (induction P s rule: rx_match.induct)
  case (1 s) then show ?case by simp
next
  case (2 l rs s)
  then have l: "take (length l) s = l" and m: "rx_match rs (drop (length l) s) = Some r"
    by (auto split: if_splits)
  from 2(1)[OF l m] obtain w where w: "drop (length l) s = w @ r" "pat_lang rs w" by blast
  have "l @ w @ r = s" using append_take_drop_id[of "length l" s] unfolding l w(1) .
  then have "s = (l @ w) @ r" by simp
  moreover have "pat_lang (Lit l # rs) (l @ w)" using w(2) by (intro pat_lang_ConsI) simp_all
  ultimately show ?case by blast
next
  case (3 cs rs s)
  then obtain c t where s: "s = c # t" and c: "c \<in> set cs" and m: "rx_match rs t = Some r"
    by (auto split: list.splits if_splits)
  from 3(1)[OF s c m] obtain w where w: "t = w @ r" "pat_lang rs w" by blast
  have "pat_lang (OneOf cs # rs) ([c] @ w)" using c w(2) by (intro pat_lang_ConsI) simp_all
  moreover have "s = ([c] @ w) @ r" using s w(1) by simp
  ultimately show ?case by blast
next
  case (4 n k rs s)
  then have n: "n \<le> length (takeWhile (in_cls k) s)"
    and m: "rx_match rs (dropWhile (in_cls k) s) = Some r" by (auto split: if_splits)
  from 4(1)[OF n m] obtain w where w: "dropWhile (in_cls k) s = w @ r" "pat_lang rs w" by blast
  have "item_lang (AtLeast n k) (takeWhile (in_cls k) s)"
    using n by (auto simp: list_all_iff dest: set_takeWhileD)
  then have "pat_lang (AtLeast n k # rs) (takeWhile (in_cls k) s @ w)"
    using w(2) by (rule pat_lang_ConsI)
  moreover have "takeWhile (in_cls k) s @ w @ r = s"
    using takeWhile_dropWhile_id[of "in_cls k" s] unfolding w(1) .
  then have "s = (takeWhile (in_cls k) s @ w) @ r" by simp
  ultimately show ?case by blast
qed

lemma rx_match_complete:
  "greedy_ok P \<Longrightarrow> pat_lang P w \<Longrightarrow> rx_match P (w @ t) \<noteq> None"
proof (induction P arbitrary: w)
  case Nil then show ?case by simp
next
  case (Cons r rs)
  from Cons.prems(2) obtain u v where w: "w = u @ v" and u: "item_lang r u" and v: "pat_lang rs v"
    by (auto simp: pat_lang_Cons)
  show ?case
  proof (cases r)
    case (Lit l)
    then have "greedy_ok rs" using Cons.prems(1) by simp
    then have "rx_match rs (v @ t) \<noteq> None" using Cons.IH v by blast
    then show ?thesis using Lit u w by simp
  next
    case (OneOf cs)
    then have "greedy_ok rs" using Cons.prems(1) by simp
    then have "rx_match rs (v @ t) \<noteq> None" using Cons.IH v by blast
    then show ?thesis using OneOf u w by (auto split: list.splits)
  next
    case (AtLeast n k)
    then have g: "greedy_ok rs" using Cons.prems(1) by simp
    have all: "\<forall>x\<in>set u. in_cls k x" and len: "n \<le> length u"
      using u AtLeast by (auto simp: list_all_iff)
    show ?thesis
    proof (cases rs)
      case Nil
      then have "w = u" using v w by simp
      have "length u \<le> length (takeWhile (in_cls k) (u @ t))"
        using all by simp
      then show ?thesis using AtLeast Nil len \<open>w = u\<close> by simp
    next
      case (Cons r' rs')
      then obtain x l where r': "r' = Lit (x # l)" and nx: "\<not> in_cls k x"
        using Cons.prems(1) AtLeast by (auto split: rx.splits list.splits)
      from v Cons r' obtain v' where v': "v = (x # l) @ v'"
        by (auto simp: pat_lang_Cons)
      have tw: "takeWhile (in_cls k) (u @ v @ t) = u" "dropWhile (in_cls k) (u @ v @ t) = v @ t"
        using all nx v' by simp_all
      have "rx_match rs (v @ t) \<noteq> None" using Cons.IH g v by blast
      then show ?thesis using AtLeast w tw len by simp
    qed
  qed
qed

lemma item_star_free: "star_free_item r \<Longrightarrow> item_lang r w \<Longrightarrow> CHR ''*'' \<notin> set w"
  by (cases r) (auto simp: list_all_iff split: list.splits)

lemma pat_lang_star_free:
  "list_all star_free_item P \<Longrightarrow> pat_lang P w \<Longrightarrow> CHR ''*'' \<notin> set w"
proof (induction P arbitrary: w)
  case Nil then show ?case by simp
next
  case (Cons r rs)
  then show ?case by (auto simp: pat_lang_Cons dest: item_star_free)
qed

lemma pat_lang_nonempty: "starts_lit P \<Longrightarrow> pat_lang P w \<Longrightarrow> w \<noteq> []"
  by (auto simp: starts_lit_def pat_lang_Cons split: list.splits rx.splits)

section \<open>Properties of the replacement\<close>

lemma set_MASK: "set MASK = {CHR ''*''}"
  by (simp add: MASK_def)

lemma prefix_stars: "prefix w (a @ t) \<Longrightarrow> set a \<subseteq> {x} \<Longrightarrow> a \<noteq> [] \<Longrightarrow> x \<notin> set w \<Longrightarrow> w = []"
  by (cases a; cases w) auto

lemma sublist_skip: "sublist w (a @ t) \<Longrightarrow> set a \<subseteq> {x} \<Longrightarrow> x \<notin> set w \<Longrightarrow> sublist w t"
proof (induction a)
  case Nil then show ?case by simp
next
  case (Cons y a)
  from Cons.prems(1) have "prefix w (y # a @ t) \<or> sublist w (a @ t)"
    by (simp add: sublist_Cons_right)
  then show ?case
  proof
    assume "prefix w (y # a @ t)"
    then have "w = []" using Cons.prems(2,3) by (cases w) auto
    then show ?thesis by simp
  next
    assume "sublist w (a @ t)"
    then show ?thesis using Cons by simp
  qed
qed

lemma sublist_MASK: "sublist w (MASK @ t) \<Longrightarrow> CHR ''*'' \<notin> set w \<Longrightarrow> sublist w t"
  by (rule sublist_skip[where a = MASK and x = "CHR ''*''"]) (simp_all add: set_MASK)

lemma prefix_MASK: "prefix w (MASK @ t) \<Longrightarrow> CHR ''*'' \<notin> set w \<Longrightarrow> w = []"
  by (rule prefix_stars[where a = MASK and x = "CHR ''*''"]) (simp_all add: set_MASK, simp add: MASK_def)

lemma replace_all_prefix:
  "prefix w (replace_all P s) \<Longrightarrow> CHR ''*'' \<notin> set w \<Longrightarrow> prefix w s"
proof (induction s arbitrary: w)
  case Nil
  then show ?case using prefix_MASK[of w "[]"] by (auto split: if_splits)
next
  case (Cons c s)
  show ?case
  proof (cases "rx_match P (c # s)")
    case None
    then have p: "prefix w (c # replace_all P s)" using Cons.prems(1) by simp
    show ?thesis
    proof (cases w)
      case Nil then show ?thesis by simp
    next
      case (Cons d w')
      then have "d = c" "prefix w' (replace_all P s)" using p by simp_all
      moreover have "CHR ''*'' \<notin> set w'" using Cons Cons.prems(2) by simp
      ultimately show ?thesis using Cons.IH Cons by simp
    qed
  next
    case (Some r)
    then have "\<exists>t. replace_all P (c # s) = MASK @ t" by simp
    then obtain t where "replace_all P (c # s) = MASK @ t" ..
    then have "w = []" using Cons.prems prefix_MASK by metis
    then show ?thesis by simp
  qed
qed

lemma replace_all_sublist:
  "sublist w (replace_all Q s) \<Longrightarrow> CHR ''*'' \<notin> set w \<Longrightarrow> sublist w s"
proof (induction Q s rule: replace_all.induct)
  case (1 P)
  then show ?case using sublist_MASK[of w "[]"] by (auto split: if_splits)
next
  case (2 P c s)
  show ?case
  proof (cases "rx_match P (c # s)")
    case None
    then have "sublist w (c # replace_all P s)" using 2(4) by simp
    then have "prefix w (c # replace_all P s) \<or> sublist w (replace_all P s)"
      by (simp add: sublist_Cons_right)
    then show ?thesis
    proof
      assume "prefix w (c # replace_all P s)"
      then have "prefix w (replace_all P (c # s))" using None by simp
      then have "prefix w (c # s)" using 2(5) by (rule replace_all_prefix)
      then show ?thesis by (rule prefix_imp_sublist)
    next
      assume "sublist w (replace_all P s)"
      then have "sublist w s" using 2(1)[OF None] 2(5) by blast
      then show ?thesis by (simp add: sublist_Cons_right)
    qed
  next
    case (Some r)
    have suf: "suffix r (c # s)" using Some by (rule rx_match_suffix)
    show ?thesis
    proof (cases "length r < Suc (length s)")
      case True
      then have "sublist w (MASK @ replace_all P r)" using 2(4) Some by simp
      then have "sublist w (replace_all P r)" using 2(5) by (rule sublist_MASK)
      then have "sublist w r" using 2(2)[OF Some True] 2(5) by blast
      then show ?thesis using suf by (meson sublist_order.order.trans suffix_imp_sublist)
    next
      case False
      then have "sublist w (MASK @ c # replace_all P s)" using 2(4) Some by simp
      then have "sublist w (c # replace_all P s)" using 2(5) by (rule sublist_MASK)
      then have "prefix w (c # replace_all P s) \<or> sublist w (replace_all P s)"
        by (simp add: sublist_Cons_right)
      then show ?thesis
      proof
        assume p: "prefix w (c # replace_all P s)"
        show ?thesis
        proof (cases w)
          case Nil then show ?thesis by simp
        next
          case (Cons d w')
          then have "d = c" "prefix w' (replace_all P s)" using p by simp_all
          moreover have "CHR ''*'' \<notin> set w'" using Cons 2(5) by simp
          ultimately have "prefix w' s" using replace_all_prefix by blast
          then have "prefix w (c # s)" using Cons \<open>d = c\<close> by simp
          then show ?thesis by (rule prefix_imp_sublist)
        qed
      next
        assume "sublist w (replace_all P s)"
        then have "sublist w s" using 2(3)[OF Some False] 2(5) by blast
        then show ?thesis by (simp add: sublist_Cons_right)
      qed
    qed
  qed
qed

lemma replace_all_no_match_aux:
  "greedy_ok P \<Longrightarrow> list_all star_free_item P \<Longrightarrow> starts_lit P \<Longrightarrow>
   sublist w (replace_all P s) \<Longrightarrow> pat_lang P w \<Longrightarrow> False"
proof (induction P s rule: replace_all.induct)
  case (1 P)
  have sf: "CHR ''*'' \<notin> set w" using 1(2,5) by (rule pat_lang_star_free)
  have ne: "w \<noteq> []" using 1(3,5) by (rule pat_lang_nonempty)
  have "sublist w (MASK @ []) \<or> sublist w []" using 1(4) by (simp split: if_splits)
  then have "sublist w []" using sf sublist_MASK by blast
  then show ?case using ne by simp
next
  case (2 P c s)
  have sf: "CHR ''*'' \<notin> set w" using 2(5,8) by (rule pat_lang_star_free)
  have ne: "w \<noteq> []" using 2(6,8) by (rule pat_lang_nonempty)
  show ?case
  proof (cases "rx_match P (c # s)")
    case None
    then have "sublist w (c # replace_all P s)" using 2(7) by simp
    then have "prefix w (c # replace_all P s) \<or> sublist w (replace_all P s)"
      by (simp add: sublist_Cons_right)
    then show ?thesis
    proof
      assume p: "prefix w (c # replace_all P s)"
      obtain d w' where w: "w = d # w'" using ne by (cases w) auto
      then have "d = c" "prefix w' (replace_all P s)" using p by simp_all
      moreover have "CHR ''*'' \<notin> set w'" using w sf by simp
      ultimately have "prefix w' s" using replace_all_prefix by blast
      then have "prefix w (c # s)" using w \<open>d = c\<close> by simp
      then obtain t where t: "c # s = w @ t" by (auto simp: prefix_def)
      have "rx_match P (w @ t) \<noteq> None" using 2(4,8) by (rule rx_match_complete)
      then show False using t None by simp
    next
      assume "sublist w (replace_all P s)"
      then show False using 2(1)[OF None] 2(4,5,6,8) by blast
    qed
  next
    case (Some r)
    from rx_match_sound[OF Some] obtain u where u: "c # s = u @ r" "pat_lang P u" by blast
    have "u \<noteq> []" using 2(6) u(2) by (rule pat_lang_nonempty)
    then have "length u > 0" by simp
    moreover have "Suc (length s) = length u + length r"
      using arg_cong[OF u(1), of length] by simp
    ultimately have lt: "length r < Suc (length s)" by linarith
    then have "sublist w (MASK @ replace_all P r)" using 2(7) Some by simp
    then have "sublist w (replace_all P r)" using sf by (rule sublist_MASK)
    then show False using 2(2)[OF Some lt] 2(4,5,6,8) by blast
  qed
qed

lemma replace_all_no_match: "good_pat P \<Longrightarrow> \<not> has_match P (replace_all P s)"
  unfolding has_match_iff good_pat_def using replace_all_no_match_aux by blast

lemma replace_all_keeps_clean:
  assumes "\<not> has_match P s" and "list_all star_free_item P"
  shows "\<not> has_match P (replace_all Q s)"
proof
  assume "has_match P (replace_all Q s)"
  then obtain w where w: "sublist w (replace_all Q s)" "pat_lang P w"
    unfolding has_match_iff by blast
  have "CHR ''*'' \<notin> set w" using assms(2) w(2) by (rule pat_lang_star_free)
  with w(1) have "sublist w s" by (rule replace_all_sublist)
  then show False using assms(1) w(2) unfolding has_match_iff by blast
qed

lemma replace_all_id: "\<not> has_match P s \<Longrightarrow> replace_all P s = s"
proof (induction s)
  case Nil
  have "rx_match P [] = None"
  proof (cases "rx_match P []")
    case (Some r)
    from rx_match_sound[OF Some] have "pat_lang P []" by simp
    then have "has_match P []" unfolding has_match_iff by blast
    then show ?thesis using Nil by simp
  qed simp
  then show ?case by simp
next
  case (Cons c s)
  have "rx_match P (c # s) = None"
  proof (cases "rx_match P (c # s)")
    case (Some r)
    from rx_match_sound[OF Some] obtain u where u: "c # s = u @ r" "pat_lang P u" by blast
    then have "sublist u (c # s)" by (metis prefixI prefix_imp_sublist)
    then have "has_match P (c # s)" using u(2) unfolding has_match_iff by blast
    then show ?thesis using Cons.prems by simp
  qed simp
  moreover have "\<not> has_match P s"
    using Cons.prems unfolding has_match_iff by (auto simp: sublist_Cons_right)
  ultimately show ?case using Cons.IH by simp
qed

section \<open>Properties of redact\<close>

lemma good_PATTERNS: "P \<in> set PATTERNS \<Longrightarrow> good_pat P"
  by (auto simp: PATTERNS_def good_pat_def starts_lit_def alnum_def
      sk_pattern_def ghp_pattern_def jwt_pattern_def xox_pattern_def)

lemma star_free_PATTERNS: "P \<in> set PATTERNS \<Longrightarrow> list_all star_free_item P"
  using good_PATTERNS by (simp add: good_pat_def)

lemma no_match_Nil: "P \<in> set PATTERNS \<Longrightarrow> \<not> has_match P []"
  using good_PATTERNS[of P] pat_lang_nonempty[of P "[]"]
  by (auto simp: has_match_iff good_pat_def)

lemma redact_unfold:
  "redact s = (if s = [] then [] else
     replace_all xox_pattern (replace_all jwt_pattern (replace_all ghp_pattern (replace_all sk_pattern s))))"
  by (simp add: redact_def PATTERNS_def)

lemma redact_secret_free: "secret_free (redact s)"
proof (cases "s = []")
  case True
  then show ?thesis using no_match_Nil by (simp add: redact_def secret_free_def)
next
  case False
  let ?s1 = "replace_all sk_pattern s"
  let ?s2 = "replace_all ghp_pattern ?s1"
  let ?s3 = "replace_all jwt_pattern ?s2"
  let ?s4 = "replace_all xox_pattern ?s3"
  have mem: "sk_pattern \<in> set PATTERNS" "ghp_pattern \<in> set PATTERNS"
    "jwt_pattern \<in> set PATTERNS" "xox_pattern \<in> set PATTERNS"
    by (simp_all add: PATTERNS_def)
  have "\<not> has_match sk_pattern ?s1"
    by (rule replace_all_no_match) (rule good_PATTERNS[OF mem(1)])
  then have "\<not> has_match sk_pattern ?s2"
    by (rule replace_all_keeps_clean) (rule star_free_PATTERNS[OF mem(1)])
  then have "\<not> has_match sk_pattern ?s3"
    by (rule replace_all_keeps_clean) (rule star_free_PATTERNS[OF mem(1)])
  then have a: "\<not> has_match sk_pattern ?s4"
    by (rule replace_all_keeps_clean) (rule star_free_PATTERNS[OF mem(1)])
  have "\<not> has_match ghp_pattern ?s2"
    by (rule replace_all_no_match) (rule good_PATTERNS[OF mem(2)])
  then have "\<not> has_match ghp_pattern ?s3"
    by (rule replace_all_keeps_clean) (rule star_free_PATTERNS[OF mem(2)])
  then have b: "\<not> has_match ghp_pattern ?s4"
    by (rule replace_all_keeps_clean) (rule star_free_PATTERNS[OF mem(2)])
  have "\<not> has_match jwt_pattern ?s3"
    by (rule replace_all_no_match) (rule good_PATTERNS[OF mem(3)])
  then have c: "\<not> has_match jwt_pattern ?s4"
    by (rule replace_all_keeps_clean) (rule star_free_PATTERNS[OF mem(3)])
  have d: "\<not> has_match xox_pattern ?s4"
    by (rule replace_all_no_match) (rule good_PATTERNS[OF mem(4)])
  have "redact s = ?s4" using False by (simp add: redact_unfold)
  then show ?thesis using a b c d by (simp add: secret_free_def PATTERNS_def)
qed

lemma secret_free_redact_id: "secret_free s \<Longrightarrow> redact s = s"
  by (simp add: redact_unfold secret_free_def PATTERNS_def replace_all_id)

lemma redact_idem: "redact (redact s) = redact s"
  using redact_secret_free by (rule secret_free_redact_id)

lemma secret_free_MASK: "secret_free MASK"
proof -
  have False if "P \<in> set PATTERNS" "sublist w MASK" "pat_lang P w" for P w
  proof -
    have "CHR ''*'' \<notin> set w" using star_free_PATTERNS[OF that(1)] that(3) by (rule pat_lang_star_free)
    moreover have "w \<noteq> []" using good_PATTERNS[OF that(1)] that(3)
      by (auto simp: good_pat_def dest: pat_lang_nonempty)
    moreover have "sublist w (MASK @ [])" using that(2) by simp
    ultimately show False using sublist_MASK[of w "[]"] by auto
  qed
  then show ?thesis unfolding secret_free_def has_match_iff by blast
qed

lemma redact_MASK: "redact MASK = MASK"
  using secret_free_MASK by (rule secret_free_redact_id)






section \<open>Redaction of payloads\<close>

lemma insert_index_map:
  "(\<And>x. fst (F x) = fst x) \<Longrightarrow> map F (insert_index n e L) = insert_index n (F e) (map F L)"
  by (induction L) (auto split: option.splits)

lemma keys_map: "(\<And>x. fst (F x) = fst x) \<Longrightarrow> fst ` set (map F L) = fst ` set L"
  by (simp add: image_image)

lemma assign_map:
  assumes "\<And>x. fst (F x) = fst x"
  shows "map F (assign L e) = assign (map F L) (F e)"
proof -
  have img: "fst ` set (map F L) = fst ` set L" using assms by (rule keys_map)
  show ?thesis
  proof (cases "fst e \<in> fst ` set L")
    case True
    then show ?thesis using assms img by (simp add: assign_def comp_def)
  next
    case False
    then show ?thesis using assms img
      by (auto simp: assign_def insert_index_map split: option.splits)
  qed
qed

lemma foldl_assign_map:
  "(\<And>x. fst (F x) = fst x) \<Longrightarrow> map F (foldl assign A L) = foldl assign (map F A) (map F L)"
  by (induction L arbitrary: A) (simp_all add: assign_map)

lemma foldl_set_prop_plain:
  "''__proto__'' \<notin> fst ` set L \<Longrightarrow> foldl set_prop (own, pr) L = (foldl assign own L, pr)"
  by (induction L arbitrary: own) (auto simp: set_prop_def)

lemma build_plain:
  assumes "\<And>x. fst (F x) = fst x" and "foldl assign [] own = own"
    and "''__proto__'' \<notin> fst ` set own"
  shows "foldl set_prop ([], None) (map F own) = (map F own, None)"
proof -
  have "fst ` set (map F own) = fst ` set own" using assms(1) by (rule keys_map)
  then have "''__proto__'' \<notin> fst ` set (map F own)" using assms(3) by simp
  then have "foldl set_prop ([], None) (map F own) = (foldl assign [] (map F own), None)"
    by (rule foldl_set_prop_plain)
  moreover have "foldl assign [] (map F own) = map F (foldl assign [] own)"
    using foldl_assign_map[OF assms(1), of "[]" own] by simp
  ultimately show ?thesis using assms(2) by simp
qed

lemma redactObject_plain: "plain v \<Longrightarrow> redactObject v = redacted v"
proof (induction v rule: redactObject.induct)
  case (2 xs)
  then show ?case by simp
next
  case (3 own proto)
  let ?F = "\<lambda>kv. (fst kv, if is_secret_key (fst kv) then VStr MASK else redactObject (snd kv))"
  let ?G = "\<lambda>kv. (fst kv, if is_secret_key (fst kv) then VStr MASK else redacted (snd kv))"
  have pr: "proto = None" and ord: "foldl assign [] own = own"
    and np: "''__proto__'' \<notin> fst ` set own" and pl: "\<forall>kv \<in> set own. plain (snd kv)"
    using "3.prems" by simp_all
  have "?F kv = ?G kv" if "kv \<in> set own" for kv
    using that pl pr "3.IH"[of kv] by simp
  then have FG: "map ?F own = map ?G own" by simp
  have B: "foldl set_prop ([], None) (map ?G own) = (map ?G own, None)"
    using ord np by (intro build_plain) simp_all
  have e1: "for_in (VObj own proto) = own" using pr by simp
  show ?case unfolding redactObject.simps e1 FG B using pr by simp
qed simp_all

lemma plain_redacted: "plain v \<Longrightarrow> plain (redacted v)"
proof (induction v rule: redacted.induct)
  case (2 xs)
  then show ?case by simp
next
  case (3 own proto)
  let ?G = "\<lambda>kv. (fst kv, if is_secret_key (fst kv) then VStr MASK else redacted (snd kv))"
  have pr: "proto = None" and ord: "foldl assign [] own = own"
    and np: "''__proto__'' \<notin> fst ` set own" and pl: "\<forall>kv \<in> set own. plain (snd kv)"
    using "3.prems" by simp_all
  have "foldl assign [] (map ?G own) = map ?G (foldl assign [] own)"
    using foldl_assign_map[of ?G "[]" own] by simp
  then have 1: "foldl assign [] (map ?G own) = map ?G own" using ord by simp
  have "fst ` set (map ?G own) = fst ` set own" by (rule keys_map) simp
  then have 2: "''__proto__'' \<notin> fst ` set (map ?G own)" using np by simp
  have 3: "\<forall>kv \<in> set (map ?G own). plain (snd kv)"
    using pl "3.IH" by auto
  show ?case using pr 1 2 3 by simp
qed simp_all

lemma redacted_strings: "plain v \<Longrightarrow> s \<in> set (strings_of (redacted v)) \<Longrightarrow> secret_free s"
proof (induction v arbitrary: s rule: redacted.induct)
  case (1 t)
  then show ?case by (simp add: redact_secret_free)
next
  case (2 xs)
  then show ?case by auto
next
  case (3 own proto)
  have pr: "proto = None" and pl: "\<forall>kv \<in> set own. plain (snd kv)" using "3.prems"(1) by simp_all
  from "3.prems"(2) pr obtain kv where kv: "kv \<in> set own"
    and s: "s \<in> set (strings_of (if is_secret_key (fst kv) then VStr MASK else redacted (snd kv)))"
    by auto
  show ?case
  proof (cases "is_secret_key (fst kv)")
    case True
    then show ?thesis using s secret_free_MASK by simp
  next
    case False
    then show ?thesis using s "3.IH"[OF kv False] pl kv by simp
  qed
qed simp_all

lemma redacted_entries:
  "plain v \<Longrightarrow> (k, x) \<in> set (entries_of (redacted v)) \<Longrightarrow> is_secret_key k \<Longrightarrow> x = VStr MASK"
proof (induction v rule: redacted.induct)
  case (2 xs)
  then show ?case by auto
next
  case (3 own proto)
  let ?G = "\<lambda>kv. (fst kv, if is_secret_key (fst kv) then VStr MASK else redacted (snd kv))"
  have pr: "proto = None" and pl: "\<forall>kv \<in> set own. plain (snd kv)" using "3.prems"(1) by simp_all
  from "3.prems"(2) pr have "(k, x) \<in> set (map ?G own) \<or>
      (\<exists>kv \<in> set own. (k, x) \<in> set (entries_of (snd (?G kv))))"
    by auto
  then show ?case
  proof
    assume "(k, x) \<in> set (map ?G own)"
    then show ?thesis using "3.prems"(3) by auto
  next
    assume "\<exists>kv \<in> set own. (k, x) \<in> set (entries_of (snd (?G kv)))"
    then obtain kv where kv: "kv \<in> set own" and e: "(k, x) \<in> set (entries_of (snd (?G kv)))"
      by blast
    show ?thesis
    proof (cases "is_secret_key (fst kv)")
      case True
      then show ?thesis using e by simp
    next
      case False
      then show ?thesis using e "3.IH"[OF kv False] "3.prems"(3) pl kv by simp
    qed
  qed
qed simp_all

lemma redacted_idem: "redacted (redacted v) = redacted v"
proof (induction v rule: redacted.induct)
  case (1 s)
  then show ?case by (simp add: redact_idem)
next
  case (2 xs)
  then show ?case by simp
next
  case (3 own proto)
  then show ?case by (auto simp: redact_MASK)
qed simp_all















text \<open>
  Redacting a redacted payload changes nothing, for a payload as \<^verbatim>\<open>JSON.parse\<close>
  returns it, no object of which has a key named \<^verbatim>\<open>__proto__\<close>: a redacted string holds
  no match any more, the mask holds none, and an entry under a secret key name holds
  the mask again.
\<close>

theorem redactObject_idempotent_plain:
  "plain v \<longrightarrow> redactObject (redactObject v) = redactObject v"
proof
  assume p: "plain v"
  then have r: "redactObject v = redacted v" by (rule redactObject_plain)
  have "plain (redacted v)" using p by (rule plain_redacted)
  then have "redactObject (redacted v) = redacted (redacted v)" by (rule redactObject_plain)
  then show "redactObject (redactObject v) = redactObject v" unfolding r by (simp add: redacted_idem)
qed

theorem redactObject_idempotent_plain_witness:
  "redactObject (redactObject (VObj [(''token'', VNum 1), (''q'', VStr ''ghp_abcdefghijklmnopqrstuvwxyz'')] None))
     = VObj [(''token'', VStr ''********''), (''q'', VStr ''********'')] None"
proof -
  let ?v = "VObj [(''token'', VNum 1), (''q'', VStr ''ghp_abcdefghijklmnopqrstuvwxyz'')] None"
  have p: "plain ?v" by (simp add: assign_def array_index_def)
  then have "redactObject ?v = redacted ?v" by (rule redactObject_plain)
  moreover have "redacted ?v = VObj [(''token'', VStr ''********''), (''q'', VStr ''********'')] None"
    by (simp add: redact_unfold is_secret_key_def lower_def MASK_def alnum_def
        sk_pattern_def ghp_pattern_def jwt_pattern_def xox_pattern_def)
  ultimately show ?thesis using redactObject_idempotent_plain[of ?v] p by simp
qed

text \<open>
  Claim C10 at a failing input: the payload \<^verbatim>\<open>{"__proto__": {"x": "hi"}, "a": "b"}\<close> as
  \<^verbatim>\<open>JSON.parse\<close> returns it.  The first redaction assigns to \<^verbatim>\<open>__proto__\<close>, which makes
  the redacted inner object the prototype of the result and leaves \<open>a\<close> as the only
  own entry.  The second redaction enumerates the inherited key \<open>x\<close> as well and
  returns an object with the own entries \<open>a\<close> and \<open>x\<close>: the two results differ.
\<close>

theorem redactObject_proto_not_idempotent:
  "redactObject (VObj [(''__proto__'', VObj [(''x'', VStr ''hi'')] None), (''a'', VStr ''b'')] None)
     = VObj [(''a'', VStr ''b'')] (Some (VObj [(''x'', VStr ''hi'')] None))
   \<and> redactObject (VObj [(''a'', VStr ''b'')] (Some (VObj [(''x'', VStr ''hi'')] None)))
     = VObj [(''a'', VStr ''b''), (''x'', VStr ''hi'')] None"
proof -
  have t: "redact ''hi'' = ''hi''" "redact ''b'' = ''b''"
    by (simp_all add: redact_unfold sk_pattern_def ghp_pattern_def jwt_pattern_def xox_pattern_def)
  have k: "\<not> is_secret_key ''__proto__''" "\<not> is_secret_key ''a''" "\<not> is_secret_key ''x''"
    by (simp_all add: is_secret_key_def lower_def)
  have i: "array_index ''a'' = None" "array_index ''x'' = None"
    by (simp_all add: array_index_def)
  have inner: "redactObject (VObj [(''x'', VStr ''hi'')] None) = VObj [(''x'', VStr ''hi'')] None"
    using t k i by (simp add: set_prop_def assign_def)
  show ?thesis using t k i inner by (simp add: set_prop_def assign_def)
qed

section \<open>Structural equality\<close>

lemma struct_eq_refl: "struct_eq a a"
proof (induction a rule: json.induct)
  case (JArr xs)
  then show ?case by (auto simp: in_set_conv_nth)
next
  case (JObj xs)
  have "struct_eq (snd x) (snd x)" if "x \<in> set xs" for x
    using JObj that by (cases x) auto
  then show ?case by auto
qed simp_all

lemma same_json_struct: "same_json a b \<Longrightarrow> struct_eq a b"
  by (simp add: same_json_def struct_eq_refl)

lemma same_payloads_struct: "same_payloads a b \<Longrightarrow> same_struct_payloads a b"
  by (simp add: same_payloads_def same_struct_payloads_def same_json_struct)

section \<open>Step alignment\<close>

lemma length_alignSteps: "length (alignSteps A B) = max (length A) (length B)"
  by (induction A B rule: alignSteps.induct) simp_all

lemma alignSteps_nth_both:
  "i < length A \<Longrightarrow> i < length B \<Longrightarrow>
   alignSteps A B ! i =
     \<lparr>step1 = Some (step_id (A ! i)), step2 = Some (step_id (B ! i)),
      matchType = (if phase (A ! i) = phase (B ! i) \<and> same_json (input (A ! i)) (input (B ! i)) then Exact
                   else if phase (A ! i) = phase (B ! i) then Phase else Mismatch)\<rparr>"
proof (induction A B arbitrary: i rule: alignSteps.induct)
  case (1 s1 r1 s2 r2)
  then show ?case by (cases i) simp_all
qed simp_all

lemma alignSteps_nth_left:
  "i < length A \<Longrightarrow> length B \<le> i \<Longrightarrow>
   alignSteps A B ! i = \<lparr>step1 = Some (step_id (A ! i)), step2 = None, matchType = Mismatch\<rparr>"
proof (induction A B arbitrary: i rule: alignSteps.induct)
  case (1 s1 r1 s2 r2)
  then show ?case by (cases i) simp_all
next
  case (2 s1 r1)
  then show ?case by (cases i) simp_all
qed simp_all

lemma alignSteps_nth_right:
  "i < length B \<Longrightarrow> length A \<le> i \<Longrightarrow>
   alignSteps A B ! i = \<lparr>step1 = None, step2 = Some (step_id (B ! i)), matchType = Mismatch\<rparr>"
proof (induction A B arbitrary: i rule: alignSteps.induct)
  case (1 s1 r1 s2 r2)
  then show ?case by (cases i) simp_all
next
  case (3 s2 r2)
  then show ?case by (cases i) simp_all
qed simp_all

text \<open>
  The alignment of two runs has max(|A|,|B|) entries.  Where only one run has a step
  at index i the entry is \<open>Mismatch\<close> and the absent side is null.  Where both have
  one, the entry names both identifiers; it is \<open>Mismatch\<close> when the phases differ
  and \<open>Phase\<close> when the phases are equal and the inputs are not structurally equal.
  When the phases are equal and the inputs are structurally equal it is \<open>Exact\<close>
  if the two inputs are serialised alike, that is, with their keys in the same order.
\<close>

theorem alignSteps_classifies:
  "length (alignSteps A B) = max (length A) (length B) \<and>
   (\<forall>i < max (length A) (length B).
      (i < length A \<and> i < length B \<and> struct_eq (input (A ! i)) (input (B ! i))
         \<longrightarrow> same_json (input (A ! i)) (input (B ! i)))
      \<longrightarrow>
      alignSteps A B ! i =
        (if i < length A \<and> i < length B then
           \<lparr>step1 = Some (step_id (A ! i)), step2 = Some (step_id (B ! i)),
            matchType =
              (if phase (A ! i) = phase (B ! i) \<and> struct_eq (input (A ! i)) (input (B ! i))
               then Exact
               else if phase (A ! i) = phase (B ! i) then Phase
               else Mismatch)\<rparr>
         else if i < length A then
           \<lparr>step1 = Some (step_id (A ! i)), step2 = None, matchType = Mismatch\<rparr>
         else
           \<lparr>step1 = None, step2 = Some (step_id (B ! i)), matchType = Mismatch\<rparr>))"
proof (intro conjI allI impI)
  show "length (alignSteps A B) = max (length A) (length B)" by (rule length_alignSteps)
next
  fix i assume i: "i < max (length A) (length B)"
  assume k: "i < length A \<and> i < length B \<and> struct_eq (input (A ! i)) (input (B ! i))
         \<longrightarrow> same_json (input (A ! i)) (input (B ! i))"
  consider "i < length A" "i < length B" | "i < length A" "length B \<le> i"
    | "i < length B" "length A \<le> i"
    using i by linarith
  then show "alignSteps A B ! i =
        (if i < length A \<and> i < length B then
           \<lparr>step1 = Some (step_id (A ! i)), step2 = Some (step_id (B ! i)),
            matchType =
              (if phase (A ! i) = phase (B ! i) \<and> struct_eq (input (A ! i)) (input (B ! i))
               then Exact
               else if phase (A ! i) = phase (B ! i) then Phase
               else Mismatch)\<rparr>
         else if i < length A then
           \<lparr>step1 = Some (step_id (A ! i)), step2 = None, matchType = Mismatch\<rparr>
         else
           \<lparr>step1 = None, step2 = Some (step_id (B ! i)), matchType = Mismatch\<rparr>)"
  proof cases
    case 1
    have "same_json (input (A ! i)) (input (B ! i)) \<longleftrightarrow> struct_eq (input (A ! i)) (input (B ! i))"
      using k 1 same_json_struct by blast
    then show ?thesis using 1 alignSteps_nth_both[of i A B] by simp
  next
    case 2
    then show ?thesis using alignSteps_nth_left[of i A B] by simp
  next
    case 3
    then show ?thesis using alignSteps_nth_right[of i B A] by simp
  qed
qed

theorem alignSteps_classifies_witness:
  "length (alignSteps
      [mk_step 1 Reason (JObj [(''p'', JStr ''hi'')]) (JObj []) Ok,
       mk_step 2 Tool (JObj [(''q'', JNum 1)]) (JObj []) Ok,
       mk_step 3 Observe (JObj []) (JObj []) Ok]
      [mk_step 1 Reason (JObj [(''p'', JStr ''hi'')]) (JObj []) Ok,
       mk_step 2 Tool (JObj [(''q'', JNum 2)]) (JObj []) Ok]) = 3
   \<and> alignSteps
      [mk_step 1 Reason (JObj [(''p'', JStr ''hi'')]) (JObj []) Ok,
       mk_step 2 Tool (JObj [(''q'', JNum 1)]) (JObj []) Ok,
       mk_step 3 Observe (JObj []) (JObj []) Ok]
      [mk_step 1 Reason (JObj [(''p'', JStr ''hi'')]) (JObj []) Ok,
       mk_step 2 Tool (JObj [(''q'', JNum 2)]) (JObj []) Ok] ! 1
     = \<lparr>step1 = Some 2, step2 = Some 2, matchType = Phase\<rparr>"
proof -
  let ?A = "[mk_step 1 Reason (JObj [(''p'', JStr ''hi'')]) (JObj []) Ok,
       mk_step 2 Tool (JObj [(''q'', JNum 1)]) (JObj []) Ok,
       mk_step 3 Observe (JObj []) (JObj []) Ok]"
  let ?B = "[mk_step 1 Reason (JObj [(''p'', JStr ''hi'')]) (JObj []) Ok,
       mk_step 2 Tool (JObj [(''q'', JNum 2)]) (JObj []) Ok]"
  have len: "length (alignSteps ?A ?B) = max (length ?A) (length ?B)"
    and nth: "\<And>i. i < max (length ?A) (length ?B) \<Longrightarrow>
      (i < length ?A \<and> i < length ?B \<and> struct_eq (input (?A ! i)) (input (?B ! i))
         \<longrightarrow> same_json (input (?A ! i)) (input (?B ! i))) \<Longrightarrow>
      alignSteps ?A ?B ! i =
        (if i < length ?A \<and> i < length ?B then
           \<lparr>step1 = Some (step_id (?A ! i)), step2 = Some (step_id (?B ! i)),
            matchType =
              (if phase (?A ! i) = phase (?B ! i) \<and> struct_eq (input (?A ! i)) (input (?B ! i))
               then Exact
               else if phase (?A ! i) = phase (?B ! i) then Phase
               else Mismatch)\<rparr>
         else if i < length ?A then
           \<lparr>step1 = Some (step_id (?A ! i)), step2 = None, matchType = Mismatch\<rparr>
         else
           \<lparr>step1 = None, step2 = Some (step_id (?B ! i)), matchType = Mismatch\<rparr>)"
    using alignSteps_classifies[of ?A ?B] by blast+
  have a: "(1::nat) < max (length ?A) (length ?B)" by simp
  have b: "1 < length ?A \<and> 1 < length ?B \<and> struct_eq (input (?A ! 1)) (input (?B ! 1))
         \<longrightarrow> same_json (input (?A ! 1)) (input (?B ! 1))"
    by (simp add: mk_step_def)
  from nth[OF a b]
  have "alignSteps ?A ?B ! 1 = \<lparr>step1 = Some 2, step2 = Some 2, matchType = Phase\<rparr>"
    by (simp add: mk_step_def)
  then show ?thesis using len by simp
qed

text \<open>
  Claim C5 at a failing input.  Each run has one tool step; the input of the first is
  \<^verbatim>\<open>{"a":1,"b":2}\<close> and the input of the second is \<^verbatim>\<open>{"b":2,"a":1}\<close>: the same keys
  with the same values, in another order.  The phases are equal and the inputs are
  structurally equal, and the entry is \<open>Phase\<close>, not \<open>Exact\<close>: the two inputs are
  compared as serialised, and the serialisations differ.
\<close>

theorem alignSteps_key_order_phase:
  "alignSteps
     [mk_step 1 Tool (JObj [(''a'', JNum 1), (''b'', JNum 2)]) (JObj []) Ok]
     [mk_step 1 Tool (JObj [(''b'', JNum 2), (''a'', JNum 1)]) (JObj []) Ok]
     = [\<lparr>step1 = Some 1, step2 = Some 1, matchType = Phase\<rparr>]
   \<and> struct_eq (JObj [(''a'', JNum 1), (''b'', JNum 2)]) (JObj [(''b'', JNum 2), (''a'', JNum 1)])
   \<and> phase (mk_step 1 Tool (JObj [(''a'', JNum 1), (''b'', JNum 2)]) (JObj []) Ok)
     = phase (mk_step 1 Tool (JObj [(''b'', JNum 2), (''a'', JNum 1)]) (JObj []) Ok)"
  by (simp add: mk_step_def same_json_def)

section \<open>Divergence point\<close>

lemma first_difference_None:
  "\<forall>j < min (length A) (length B). same_payloads (A ! j) (B ! j) \<Longrightarrow> first_difference A B = None"
proof (induction A B rule: first_difference.induct)
  case (1 s1 r1 s2 r2)
  have "same_payloads s1 s2" using "1.prems" by (auto dest: spec[of _ 0])
  moreover have "\<forall>j < min (length r1) (length r2). same_payloads (r1 ! j) (r2 ! j)"
  proof (intro allI impI)
    fix j assume "j < min (length r1) (length r2)"
    then have "Suc j < min (length (s1 # r1)) (length (s2 # r2))" by simp
    then have "same_payloads ((s1 # r1) ! Suc j) ((s2 # r2) ! Suc j)" using "1.prems" by blast
    then show "same_payloads (r1 ! j) (r2 ! j)" by simp
  qed
  ultimately show ?case using "1.IH" by (simp add: same_payloads_def)
qed simp_all

lemma first_difference_Some:
  "i < length A \<Longrightarrow> i < length B \<Longrightarrow> \<forall>j < i. same_payloads (A ! j) (B ! j) \<Longrightarrow>
   \<not> same_payloads (A ! i) (B ! i) \<Longrightarrow> first_difference A B = Some (step_id (A ! i))"
proof (induction A B arbitrary: i rule: first_difference.induct)
  case (1 s1 r1 s2 r2)
  show ?case
  proof (cases i)
    case 0
    then show ?thesis using "1.prems"(4) by (auto simp: same_payloads_def)
  next
    case (Suc k)
    have h: "same_payloads s1 s2" using "1.prems"(3) Suc by (auto dest: spec[of _ 0])
    have "\<forall>j < k. same_payloads (r1 ! j) (r2 ! j)"
    proof (intro allI impI)
      fix j assume "j < k"
      then have "same_payloads ((s1 # r1) ! Suc j) ((s2 # r2) ! Suc j)"
        using "1.prems"(3) Suc by auto
      then show "same_payloads (r1 ! j) (r2 ! j)" by simp
    qed
    moreover have "k < length r1" "k < length r2" "\<not> same_payloads (r1 ! k) (r2 ! k)"
      using "1.prems"(1,2,4) Suc by simp_all
    ultimately have "first_difference r1 r2 = Some (step_id (r1 ! k))"
      using "1.IH" h by (simp add: same_payloads_def)
    then show ?thesis using h Suc by (simp add: same_payloads_def)
  qed
qed simp_all

lemma findDivergence_serialised:
  "(\<forall>i. i < length A \<and> i < length B \<and> (\<forall>j < i. same_payloads (A ! j) (B ! j))
        \<and> \<not> same_payloads (A ! i) (B ! i)
      \<longrightarrow> findDivergence A B = Some (step_id (A ! i)))
   \<and> ((\<forall>j < min (length A) (length B). same_payloads (A ! j) (B ! j)) \<and> length A \<noteq> length B
      \<longrightarrow> findDivergence A B =
            Some (if min (length A) (length B) = 0 then 0
                  else step_id (A ! (min (length A) (length B) - 1))))
   \<and> ((\<forall>j < min (length A) (length B). same_payloads (A ! j) (B ! j)) \<and> length A = length B
      \<longrightarrow> findDivergence A B = None)"
proof (intro conjI allI impI)
  fix i
  assume "i < length A \<and> i < length B \<and> (\<forall>j < i. same_payloads (A ! j) (B ! j))
        \<and> \<not> same_payloads (A ! i) (B ! i)"
  then have "first_difference A B = Some (step_id (A ! i))"
    using first_difference_Some[of i A B] by blast
  then show "findDivergence A B = Some (step_id (A ! i))" by (simp add: findDivergence_def)
next
  assume a: "(\<forall>j < min (length A) (length B). same_payloads (A ! j) (B ! j)) \<and> length A \<noteq> length B"
  then have "first_difference A B = None" using first_difference_None by blast
  then show "findDivergence A B =
            Some (if min (length A) (length B) = 0 then 0
                  else step_id (A ! (min (length A) (length B) - 1)))"
    using a by (auto simp: findDivergence_def Let_def min_def)
next
  assume a: "(\<forall>j < min (length A) (length B). same_payloads (A ! j) (B ! j)) \<and> length A = length B"
  then have "first_difference A B = None" using first_difference_None by blast
  then show "findDivergence A B = None" using a by (simp add: findDivergence_def)
qed

text \<open>
  Claim C4, as the code has it.  Take two runs in which any two payloads at a shared
  position that are structurally equal are also serialised alike (their keys come in
  the same order).  The divergence point is the identifier, in run A, of the first
  shared index at which the inputs or the outputs are not structurally equal.  When
  the payloads at all shared positions are structurally equal and the lengths differ,
  it is the identifier of the last shared step of A, and 0 when no position is shared
  (one run is empty).  When the lengths are equal and the payloads at all positions
  are structurally equal, there is none.
\<close>

theorem findDivergence_point:
  "(\<forall>j < min (length A) (length B).
      same_struct_payloads (A ! j) (B ! j) \<longrightarrow> same_payloads (A ! j) (B ! j))
   \<longrightarrow>
   (\<forall>i. i < length A \<and> i < length B \<and> (\<forall>j < i. same_struct_payloads (A ! j) (B ! j))
        \<and> \<not> same_struct_payloads (A ! i) (B ! i)
      \<longrightarrow> findDivergence A B = Some (step_id (A ! i)))
   \<and> ((\<forall>j < min (length A) (length B). same_struct_payloads (A ! j) (B ! j))
        \<and> length A \<noteq> length B
      \<longrightarrow> findDivergence A B =
            Some (if min (length A) (length B) = 0 then 0
                  else step_id (A ! (min (length A) (length B) - 1))))
   \<and> ((\<forall>j < min (length A) (length B). same_struct_payloads (A ! j) (B ! j))
        \<and> length A = length B
      \<longrightarrow> findDivergence A B = None)"
proof (intro impI)
  assume k: "\<forall>j < min (length A) (length B).
      same_struct_payloads (A ! j) (B ! j) \<longrightarrow> same_payloads (A ! j) (B ! j)"
  have e: "same_payloads (A ! j) (B ! j) \<longleftrightarrow> same_struct_payloads (A ! j) (B ! j)"
    if "j < min (length A) (length B)" for j
    using k that same_payloads_struct by blast
  have all: "(\<forall>j < min (length A) (length B). same_payloads (A ! j) (B ! j))
      \<longleftrightarrow> (\<forall>j < min (length A) (length B). same_struct_payloads (A ! j) (B ! j))"
    using e by simp
  have upto: "(\<forall>j < i. same_payloads (A ! j) (B ! j)) \<and> \<not> same_payloads (A ! i) (B ! i)"
    if "i < length A \<and> i < length B \<and> (\<forall>j < i. same_struct_payloads (A ! j) (B ! j))
        \<and> \<not> same_struct_payloads (A ! i) (B ! i)" for i
  proof -
    have "j < min (length A) (length B)" if "j \<le> i" for j using that \<open>i < length A \<and> _\<close> by simp
    then show ?thesis using e that by (metis le_refl less_imp_le)
  qed
  note s = findDivergence_serialised[of A B]
  show "(\<forall>i. i < length A \<and> i < length B \<and> (\<forall>j < i. same_struct_payloads (A ! j) (B ! j))
        \<and> \<not> same_struct_payloads (A ! i) (B ! i)
      \<longrightarrow> findDivergence A B = Some (step_id (A ! i)))
   \<and> ((\<forall>j < min (length A) (length B). same_struct_payloads (A ! j) (B ! j))
        \<and> length A \<noteq> length B
      \<longrightarrow> findDivergence A B =
            Some (if min (length A) (length B) = 0 then 0
                  else step_id (A ! (min (length A) (length B) - 1))))
   \<and> ((\<forall>j < min (length A) (length B). same_struct_payloads (A ! j) (B ! j))
        \<and> length A = length B
      \<longrightarrow> findDivergence A B = None)"
  proof (intro conjI allI impI)
    fix i
    assume a: "i < length A \<and> i < length B \<and> (\<forall>j < i. same_struct_payloads (A ! j) (B ! j))
        \<and> \<not> same_struct_payloads (A ! i) (B ! i)"
    then have "i < length A \<and> i < length B \<and> (\<forall>j < i. same_payloads (A ! j) (B ! j))
        \<and> \<not> same_payloads (A ! i) (B ! i)"
      using upto[OF a] by simp
    then show "findDivergence A B = Some (step_id (A ! i))" using s by blast
  next
    assume "(\<forall>j < min (length A) (length B). same_struct_payloads (A ! j) (B ! j))
        \<and> length A \<noteq> length B"
    then have "(\<forall>j < min (length A) (length B). same_payloads (A ! j) (B ! j))
        \<and> length A \<noteq> length B"
      using all by simp
    then show "findDivergence A B =
            Some (if min (length A) (length B) = 0 then 0
                  else step_id (A ! (min (length A) (length B) - 1)))"
      using s by blast
  next
    assume "(\<forall>j < min (length A) (length B). same_struct_payloads (A ! j) (B ! j))
        \<and> length A = length B"
    then have "(\<forall>j < min (length A) (length B). same_payloads (A ! j) (B ! j))
        \<and> length A = length B"
      using all by simp
    then show "findDivergence A B = None" using s by blast
  qed
qed

theorem findDivergence_point_witness:
  "findDivergence
     [mk_step 1 Reason (JObj [(''p'', JStr ''hi'')]) (JObj [(''r'', JStr ''ok'')]) Ok,
      mk_step 2 Tool (JObj [(''q'', JNum 1)]) (JObj [(''result'', JStr ''R'')]) Ok]
     [mk_step 1 Reason (JObj [(''p'', JStr ''hi'')]) (JObj [(''r'', JStr ''ok'')]) Ok,
      mk_step 2 Tool (JObj [(''q'', JNum 1)]) (JObj [(''result'', JStr ''S'')]) Ok] = Some 2
   \<and> findDivergence
     [mk_step 1 Reason (JObj [(''p'', JStr ''hi'')]) (JObj [(''r'', JStr ''ok'')]) Ok,
      mk_step 2 Tool (JObj [(''q'', JNum 1)]) (JObj [(''result'', JStr ''R'')]) Ok]
     [mk_step 1 Reason (JObj [(''p'', JStr ''hi'')]) (JObj [(''r'', JStr ''ok'')]) Ok] = Some 1
   \<and> findDivergence
     [mk_step 1 Reason (JObj [(''p'', JStr ''hi'')]) (JObj [(''r'', JStr ''ok'')]) Ok]
     [mk_step 1 Reason (JObj [(''p'', JStr ''hi'')]) (JObj [(''r'', JStr ''ok'')]) Ok] = None"
proof -
  let ?s1 = "mk_step 1 Reason (JObj [(''p'', JStr ''hi'')]) (JObj [(''r'', JStr ''ok'')]) Ok"
  let ?s2 = "mk_step 2 Tool (JObj [(''q'', JNum 1)]) (JObj [(''result'', JStr ''R'')]) Ok"
  let ?s2' = "mk_step 2 Tool (JObj [(''q'', JNum 1)]) (JObj [(''result'', JStr ''S'')]) Ok"
  have s11: "same_payloads ?s1 ?s1" "same_struct_payloads ?s1 ?s1"
    by (simp_all add: same_payloads_def same_struct_payloads_def same_json_def mk_step_def)
  have s22: "\<not> same_struct_payloads ?s2 ?s2'"
    by (simp add: same_struct_payloads_def mk_step_def)
  have k1: "\<forall>j < min (length [?s1, ?s2]) (length [?s1, ?s2']).
      same_struct_payloads ([?s1, ?s2] ! j) ([?s1, ?s2'] ! j)
        \<longrightarrow> same_payloads ([?s1, ?s2] ! j) ([?s1, ?s2'] ! j)"
    using s11 s22 by (simp add: less_Suc_eq)
  have "1 < length [?s1, ?s2] \<and> 1 < length [?s1, ?s2']
      \<and> (\<forall>j < 1. same_struct_payloads ([?s1, ?s2] ! j) ([?s1, ?s2'] ! j))
      \<and> \<not> same_struct_payloads ([?s1, ?s2] ! 1) ([?s1, ?s2'] ! 1)"
    using s11 s22 by simp
  then have a: "findDivergence [?s1, ?s2] [?s1, ?s2'] = Some (step_id ([?s1, ?s2] ! 1))"
    using findDivergence_point[of "[?s1, ?s2]" "[?s1, ?s2']"] k1 by blast
  have k2: "\<forall>j < min (length [?s1, ?s2]) (length [?s1]).
      same_struct_payloads ([?s1, ?s2] ! j) ([?s1] ! j)
        \<longrightarrow> same_payloads ([?s1, ?s2] ! j) ([?s1] ! j)"
    using s11 by simp
  have "(\<forall>j < min (length [?s1, ?s2]) (length [?s1]).
        same_struct_payloads ([?s1, ?s2] ! j) ([?s1] ! j))
      \<and> length [?s1, ?s2] \<noteq> length [?s1]"
    using s11 by simp
  then have b: "findDivergence [?s1, ?s2] [?s1] =
      Some (if min (length [?s1, ?s2]) (length [?s1]) = 0 then 0
            else step_id ([?s1, ?s2] ! (min (length [?s1, ?s2]) (length [?s1]) - 1)))"
    using findDivergence_point[of "[?s1, ?s2]" "[?s1]"] k2 by blast
  have k3: "\<forall>j < min (length [?s1]) (length [?s1]).
      same_struct_payloads ([?s1] ! j) ([?s1] ! j) \<longrightarrow> same_payloads ([?s1] ! j) ([?s1] ! j)"
    using s11 by simp
  have "(\<forall>j < min (length [?s1]) (length [?s1]). same_struct_payloads ([?s1] ! j) ([?s1] ! j))
      \<and> length [?s1] = length [?s1]"
    using s11 by simp
  then have c: "findDivergence [?s1] [?s1] = None"
    using findDivergence_point[of "[?s1]" "[?s1]"] k3 by blast
  show ?thesis using a b c by (simp add: mk_step_def)
qed

text \<open>
  Claim C4 as stated fails when one run is empty: the lengths differ and no shared
  position differs, but there is no shared step, and the result is 0, the identifier
  of no step.
\<close>

theorem findDivergence_empty_run_counterexample:
  "findDivergence [mk_step 1 Reason (JObj []) (JObj []) Ok] [] = Some 0
   \<and> step_id (mk_step 1 Reason (JObj []) (JObj []) Ok) = 1"
  by (simp add: findDivergence_def mk_step_def)

section \<open>Root cause\<close>

lemma findIndex_None: "\<forall>x \<in> set xs. \<not> p x \<Longrightarrow> findIndex p xs = None"
  by (induction xs) simp_all

lemma findIndex_first:
  "\<forall>x \<in> set pre. \<not> p x \<Longrightarrow> p e \<Longrightarrow> findIndex p (pre @ e # post) = Some (length pre)"
  by (induction pre) simp_all

lemma chain_ids:
  "map (\<lambda>i. f ((pre @ e # post) ! i)) [length pre - k ..< length pre] = map f (drop (length pre - k) pre)"
proof (rule nth_equalityI)
  show "length (map (\<lambda>i. f ((pre @ e # post) ! i)) [length pre - k ..< length pre])
      = length (map f (drop (length pre - k) pre))" by simp
next
  fix i assume "i < length (map (\<lambda>i. f ((pre @ e # post) ! i)) [length pre - k ..< length pre])"
  then have i: "i < length pre - (length pre - k)" by simp
  then have "length pre - k + i < length pre" by linarith
  then show "map (\<lambda>i. f ((pre @ e # post) ! i)) [length pre - k ..< length pre] ! i
      = map f (drop (length pre - k) pre) ! i"
    using i by (simp add: nth_append)
qed

text \<open>
  Claim C6.  When a run has a step with status error, the root cause names the first
  such step, its causal chain is the identifiers, in order, of the up to three steps
  right before it, and the confidence is 0.8; when no step has status error there is
  no root cause.
\<close>

theorem analyzeFailure_root_cause:
  "((\<forall>s \<in> set pre. status s \<noteq> Error) \<and> status e = Error \<longrightarrow>
      analyzeFailure (pre @ e # post) =
        Some \<lparr>failureStepId = step_id e,
              causalChain = map step_id (drop (length pre - 3) pre),
              confidence = 8 / 10,
              description = ''Failure detected at step '' @ show_int (step_id e)
                @ ''. Preceding steps suggest context exhaustion or invalid tool usage.''\<rparr>)
   \<and> ((\<forall>s \<in> set ss. status s \<noteq> Error) \<longrightarrow> analyzeFailure ss = None)"
proof (intro conjI impI)
  assume a: "(\<forall>s \<in> set pre. status s \<noteq> Error) \<and> status e = Error"
  then have "findIndex (\<lambda>s. status s = Error) (pre @ e # post) = Some (length pre)"
    by (intro findIndex_first) simp_all
  then show "analyzeFailure (pre @ e # post) =
        Some \<lparr>failureStepId = step_id e,
              causalChain = map step_id (drop (length pre - 3) pre),
              confidence = 8 / 10,
              description = ''Failure detected at step '' @ show_int (step_id e)
                @ ''. Preceding steps suggest context exhaustion or invalid tool usage.''\<rparr>"
    unfolding analyzeFailure_def Let_def by (simp add: chain_ids)
next
  assume "\<forall>s \<in> set ss. status s \<noteq> Error"
  then have "findIndex (\<lambda>s. status s = Error) ss = None" by (intro findIndex_None) simp
  then show "analyzeFailure ss = None" by (simp add: analyzeFailure_def)
qed

theorem analyzeFailure_root_cause_witness:
  "analyzeFailure
     ([mk_step 1 Reason (JObj []) (JObj []) Ok, mk_step 2 Tool (JObj []) (JObj []) Ok,
       mk_step 3 Observe (JObj []) (JObj []) Ok, mk_step 4 Tool (JObj []) (JObj []) Retry]
      @ mk_step 5 Tool (JObj []) (JObj []) Error # [mk_step 6 Tool (JObj []) (JObj []) Error])
     = Some \<lparr>failureStepId = 5, causalChain = [2, 3, 4], confidence = 8 / 10,
             description = ''Failure detected at step 5. Preceding steps suggest context exhaustion or invalid tool usage.''\<rparr>
   \<and> analyzeFailure [mk_step 1 Reason (JObj []) (JObj []) Ok] = None"
proof -
  let ?pre = "[mk_step 1 Reason (JObj []) (JObj []) Ok, mk_step 2 Tool (JObj []) (JObj []) Ok,
       mk_step 3 Observe (JObj []) (JObj []) Ok, mk_step 4 Tool (JObj []) (JObj []) Retry]"
  let ?e = "mk_step 5 Tool (JObj []) (JObj []) Error"
  let ?post = "[mk_step 6 Tool (JObj []) (JObj []) Error]"
  have "(\<forall>s \<in> set ?pre. status s \<noteq> Error) \<and> status ?e = Error"
    by (simp add: mk_step_def)
  then have "analyzeFailure (?pre @ ?e # ?post) =
        Some \<lparr>failureStepId = step_id ?e,
              causalChain = map step_id (drop (length ?pre - 3) ?pre),
              confidence = 8 / 10,
              description = ''Failure detected at step '' @ show_int (step_id ?e)
                @ ''. Preceding steps suggest context exhaustion or invalid tool usage.''\<rparr>"
    using analyzeFailure_root_cause[of ?pre ?e ?post] by blast
  moreover have "analyzeFailure [mk_step 1 Reason (JObj []) (JObj []) Ok] = None"
    using analyzeFailure_root_cause[of _ _ _ "[mk_step 1 Reason (JObj []) (JObj []) Ok]"]
    by (simp add: mk_step_def)
  ultimately show ?thesis by (simp add: mk_step_def show_int_def)
qed

section \<open>Semantic labels\<close>

lemma includes_any_string:
  "includes_any (JStr n) subs = Inr (\<exists>sub \<in> set subs. str_includes n sub)"
  by (induction subs) simp_all

lemma tool_tags_string:
  "tool_tags (Some (JStr n)) =
     Inr (if exploring n then [''exploration''] else if committing n then [''commitment''] else [])"
proof (cases "n = []")
  case True
  then show ?thesis by (simp add: tool_tags_def exploring_def committing_def)
next
  case False
  then show ?thesis
    by (simp add: tool_tags_def includes_any_string exploring_def committing_def del: includes_any.simps)
qed

lemma tool_tags_absent: "tool_tags None = Inr []"
  by (simp add: tool_tags_def)

lemma tool_tags_typed:
  "toolName_typed s \<Longrightarrow>
   tool_tags (get_prop (input s) ''toolName'') =
     Inr (if exploring (toolName_of s) then [''exploration'']
          else if committing (toolName_of s) then [''commitment''] else [])"
proof (cases "get_prop (input s) ''toolName''")
  case None
  then show ?thesis
    by (simp add: tool_tags_absent toolName_of_def exploring_def committing_def)
next
  case (Some v)
  assume "toolName_typed s"
  then obtain n where "v = JStr n" using Some by (cases v) (simp_all add: toolName_typed_def)
  then show ?thesis using Some by (simp add: tool_tags_string toolName_of_def)
qed

lemma step_tags_typed:
  "phase (ss ! i) = Tool \<longrightarrow> toolName_typed (ss ! i) \<Longrightarrow> step_tags ss i = Inr (expected_tags ss i)"
  by (auto simp: step_tags_def expected_tags_def Let_def tool_tags_typed toolName_typed_def)

lemma label_loop_result:
  "\<forall>i \<in> set is. step_tags ss i = Inr (T i) \<Longrightarrow> distinct (map (\<lambda>i. step_id (ss ! i)) is) \<Longrightarrow>
   \<exists>L. label_loop ss is L0 = Inr L
     \<and> (\<forall>i \<in> set is. L (step_id (ss ! i)) = (if T i \<noteq> [] then Some (T i) else L0 (step_id (ss ! i))))
     \<and> (\<forall>k. k \<notin> (\<lambda>i. step_id (ss ! i)) ` set is \<longrightarrow> L k = L0 k)"
proof (induction "is" arbitrary: L0)
  case Nil
  then show ?case by simp
next
  case (Cons j js)
  let ?L1 = "if T j \<noteq> [] then L0(step_id (ss ! j) \<mapsto> T j) else L0"
  have tj: "step_tags ss j = Inr (T j)" using Cons.prems(1) by simp
  have "\<forall>i \<in> set js. step_tags ss i = Inr (T i)" using Cons.prems(1) by simp
  moreover have "distinct (map (\<lambda>i. step_id (ss ! i)) js)" using Cons.prems(2) by simp
  ultimately obtain L where L: "label_loop ss js ?L1 = Inr L"
    and Li: "\<forall>i \<in> set js. L (step_id (ss ! i)) = (if T i \<noteq> [] then Some (T i) else ?L1 (step_id (ss ! i)))"
    and Lk: "\<forall>k. k \<notin> (\<lambda>i. step_id (ss ! i)) ` set js \<longrightarrow> L k = ?L1 k"
    using Cons.IH[of ?L1] by blast
  have fresh: "step_id (ss ! j) \<notin> (\<lambda>i. step_id (ss ! i)) ` set js" using Cons.prems(2) by auto
  have a: "label_loop ss (j # js) L0 = Inr L" using tj L by simp
  have b: "L (step_id (ss ! i)) = (if T i \<noteq> [] then Some (T i) else L0 (step_id (ss ! i)))"
    if "i \<in> set (j # js)" for i
  proof (cases "i \<in> set js")
    case True
    then have "step_id (ss ! i) \<in> (\<lambda>i. step_id (ss ! i)) ` set js" by (rule imageI)
    then have "step_id (ss ! i) \<noteq> step_id (ss ! j)" using fresh by metis
    then show ?thesis using Li True by simp
  next
    case False
    then have "i = j" using that by simp
    then show ?thesis using Lk fresh by simp
  qed
  have c: "L k = L0 k" if "k \<notin> (\<lambda>i. step_id (ss ! i)) ` set (j # js)" for k
    using that Lk by auto
  show ?case using a b c by blast
qed

lemma computeSemanticLabels_expected:
  assumes d: "distinct (map step_id ss)"
    and t: "\<forall>s \<in> set ss. phase s = Tool \<longrightarrow> toolName_typed s"
  shows "\<exists>L. computeSemanticLabels ss = Inr L
     \<and> (\<forall>i < length ss. tags_of L (step_id (ss ! i)) = expected_tags ss i)"
proof -
  have 1: "\<forall>i \<in> set [0 ..< length ss]. step_tags ss i = Inr (expected_tags ss i)"
    using t by (auto intro!: step_tags_typed)
  have "map (\<lambda>i. step_id (ss ! i)) [0 ..< length ss] = map step_id ss"
    by (rule nth_equalityI) simp_all
  then have 2: "distinct (map (\<lambda>i. step_id (ss ! i)) [0 ..< length ss])" using d by simp
  from label_loop_result[OF 1 2, of Map.empty]
  obtain L where L: "label_loop ss [0 ..< length ss] Map.empty = Inr L"
    and Li: "\<forall>i \<in> set [0 ..< length ss].
       L (step_id (ss ! i)) = (if expected_tags ss i \<noteq> [] then Some (expected_tags ss i) else None)"
    by auto
  have "tags_of L (step_id (ss ! i)) = expected_tags ss i" if "i < length ss" for i
    using Li that by (simp add: tags_of_def)
  then show ?thesis using L by (simp add: computeSemanticLabels_def)
qed

text \<open>
  Claim C7, as the code has it.  For steps with distinct identifiers whose tool
  steps carry a string (or no) tool name, labelling returns a map from step
  identifier to tags in which a step is tagged \<open>retry-loop\<close> exactly when it and the
  step before it both have status retry; a tool-phase step is tagged \<open>exploration\<close>
  exactly when its tool name contains search, ls or read, and \<open>commitment\<close> exactly
  when its tool name contains write or edit and none of search, ls, read.  There are
  no other tags.  The labelling reads the step records and returns the map; it has no
  access by which it could change a record.
\<close>

theorem computeSemanticLabels_tags:
  "distinct (map step_id ss) \<and> (\<forall>s \<in> set ss. phase s = Tool \<longrightarrow> toolName_typed s) \<longrightarrow>
   (\<exists>L. computeSemanticLabels ss = Inr L \<and>
     (\<forall>i < length ss.
        (''retry-loop'' \<in> set (tags_of L (step_id (ss ! i))) \<longleftrightarrow>
           status (ss ! i) = Retry \<and> 0 < i \<and> status (ss ! (i - 1)) = Retry)
      \<and> (''exploration'' \<in> set (tags_of L (step_id (ss ! i))) \<longleftrightarrow>
           phase (ss ! i) = Tool \<and> exploring (toolName_of (ss ! i)))
      \<and> (''commitment'' \<in> set (tags_of L (step_id (ss ! i))) \<longleftrightarrow>
           phase (ss ! i) = Tool \<and> committing (toolName_of (ss ! i))
           \<and> \<not> exploring (toolName_of (ss ! i)))
      \<and> set (tags_of L (step_id (ss ! i))) \<subseteq> {''retry-loop'', ''exploration'', ''commitment''}))"
proof
  assume a: "distinct (map step_id ss) \<and> (\<forall>s \<in> set ss. phase s = Tool \<longrightarrow> toolName_typed s)"
  then obtain L where L: "computeSemanticLabels ss = Inr L"
    and Li: "\<forall>i < length ss. tags_of L (step_id (ss ! i)) = expected_tags ss i"
    using computeSemanticLabels_expected[of ss] by blast
  have "(''retry-loop'' \<in> set (expected_tags ss i) \<longleftrightarrow>
           status (ss ! i) = Retry \<and> 0 < i \<and> status (ss ! (i - 1)) = Retry)
      \<and> (''exploration'' \<in> set (expected_tags ss i) \<longleftrightarrow>
           phase (ss ! i) = Tool \<and> exploring (toolName_of (ss ! i)))
      \<and> (''commitment'' \<in> set (expected_tags ss i) \<longleftrightarrow>
           phase (ss ! i) = Tool \<and> committing (toolName_of (ss ! i))
           \<and> \<not> exploring (toolName_of (ss ! i)))
      \<and> set (expected_tags ss i) \<subseteq> {''retry-loop'', ''exploration'', ''commitment''}" for i
    by (auto simp: expected_tags_def)
  then show "\<exists>L. computeSemanticLabels ss = Inr L \<and>
     (\<forall>i < length ss.
        (''retry-loop'' \<in> set (tags_of L (step_id (ss ! i))) \<longleftrightarrow>
           status (ss ! i) = Retry \<and> 0 < i \<and> status (ss ! (i - 1)) = Retry)
      \<and> (''exploration'' \<in> set (tags_of L (step_id (ss ! i))) \<longleftrightarrow>
           phase (ss ! i) = Tool \<and> exploring (toolName_of (ss ! i)))
      \<and> (''commitment'' \<in> set (tags_of L (step_id (ss ! i))) \<longleftrightarrow>
           phase (ss ! i) = Tool \<and> committing (toolName_of (ss ! i))
           \<and> \<not> exploring (toolName_of (ss ! i)))
      \<and> set (tags_of L (step_id (ss ! i))) \<subseteq> {''retry-loop'', ''exploration'', ''commitment''})"
    using L Li by (intro exI[of _ L]) simp
qed

theorem computeSemanticLabels_tags_witness:
  "\<exists>L. computeSemanticLabels
         [mk_step 1 Tool (JObj [(''toolName'', JStr ''fetch'')]) (JObj []) Retry,
          mk_step 2 Tool (JObj [(''toolName'', JStr ''web_search'')]) (JObj []) Retry,
          mk_step 3 Tool (JObj [(''toolName'', JStr ''write_file'')]) (JObj []) Ok] = Inr L
       \<and> ''retry-loop'' \<in> set (tags_of L 2)
       \<and> ''exploration'' \<in> set (tags_of L 2)
       \<and> ''commitment'' \<in> set (tags_of L 3)
       \<and> ''retry-loop'' \<notin> set (tags_of L 1)"
proof -
  let ?ss = "[mk_step 1 Tool (JObj [(''toolName'', JStr ''fetch'')]) (JObj []) Retry,
          mk_step 2 Tool (JObj [(''toolName'', JStr ''web_search'')]) (JObj []) Retry,
          mk_step 3 Tool (JObj [(''toolName'', JStr ''write_file'')]) (JObj []) Ok]"
  have "distinct (map step_id ?ss) \<and> (\<forall>s \<in> set ?ss. phase s = Tool \<longrightarrow> toolName_typed s)"
    by (simp add: mk_step_def toolName_typed_def)
  then obtain L where L: "computeSemanticLabels ?ss = Inr L"
    and Li: "\<And>i. i < length ?ss \<Longrightarrow>
        (''retry-loop'' \<in> set (tags_of L (step_id (?ss ! i))) \<longleftrightarrow>
           status (?ss ! i) = Retry \<and> 0 < i \<and> status (?ss ! (i - 1)) = Retry)
      \<and> (''exploration'' \<in> set (tags_of L (step_id (?ss ! i))) \<longleftrightarrow>
           phase (?ss ! i) = Tool \<and> exploring (toolName_of (?ss ! i)))
      \<and> (''commitment'' \<in> set (tags_of L (step_id (?ss ! i))) \<longleftrightarrow>
           phase (?ss ! i) = Tool \<and> committing (toolName_of (?ss ! i))
           \<and> \<not> exploring (toolName_of (?ss ! i)))
      \<and> set (tags_of L (step_id (?ss ! i))) \<subseteq> {''retry-loop'', ''exploration'', ''commitment''}"
    using computeSemanticLabels_tags[of ?ss] by blast
  have e2: "exploring ''web_search''" by (simp add: exploring_def)
  have e3: "\<not> exploring ''write_file''" "committing ''write_file''"
    by (simp_all add: exploring_def committing_def)
  have "''retry-loop'' \<in> set (tags_of L 2)" "''exploration'' \<in> set (tags_of L 2)"
    using Li[of 1] e2 by (simp_all add: mk_step_def toolName_of_def)
  moreover have "''commitment'' \<in> set (tags_of L 3)"
    using Li[of 2] e3 by (simp add: mk_step_def toolName_of_def)
  moreover have "''retry-loop'' \<notin> set (tags_of L 1)"
    using Li[of 0] by (simp add: mk_step_def)
  ultimately show ?thesis using L by blast
qed

text \<open>
  Claim C7 as stated fails for a tool name that contains both kinds of word: the
  name \<open>read_write\<close> contains \<open>write\<close>, and the step is tagged \<open>exploration\<close> only.
\<close>

theorem computeSemanticLabels_commitment_counterexample:
  "computeSemanticLabels
     [mk_step 1 Tool (JObj [(''toolName'', JStr ''read_write'')]) (JObj []) Ok]
     = Inr [1 \<mapsto> [''exploration'']]
   \<and> str_includes ''read_write'' ''write''"
  by (simp add: computeSemanticLabels_def step_tags_def tool_tags_def mk_step_def Let_def)

section \<open>Counterfactual construction\<close>

lemma files_ensure_dir [simp]: "files (ensure_dir fs p) = files fs"
  by (simp add: ensure_dir_def mkdirSync_def)


lemma files_writeFileSync [simp]: "files (writeFileSync fs p c) = (files fs)(p \<mapsto> c)"
  by (simp add: writeFileSync_def)

lemma dirs_writeFileSync [simp]: "dirs (writeFileSync fs p c) = dirs fs"
  by (simp add: writeFileSync_def)

lemma status_apply_modification [simp]: "status (apply_modification m p) = Retry"
  by (simp add: apply_modification_def Let_def)

lemma step_id_apply_modification [simp]: "step_id (apply_modification m p) = step_id p"
  by (simp add: apply_modification_def Let_def)







section \<open>Loading a run\<close>

lemma parse_lines_append: "parse_lines (xs @ ys) = parse_lines xs @ parse_lines ys"
  by (simp add: parse_lines_def)

lemma parse_lines_blank: "\<forall>b \<in> set bs. b = Blank \<Longrightarrow> parse_lines bs = []"
  by (induction bs) (simp_all add: parse_lines_def)

lemma parse_lines_malformed_tail:
  "\<forall>b \<in> set bs. b = Blank \<Longrightarrow> parse_lines (ls @ Unparsable # bs) = parse_lines ls"
proof -
  assume "\<forall>b \<in> set bs. b = Blank"
  then have "parse_lines bs = []" by (rule parse_lines_blank)
  moreover have "parse_lines (ls @ [Unparsable] @ bs) = parse_lines ls @ parse_lines [Unparsable] @ parse_lines bs"
    by (simp only: parse_lines_append)
  moreover have "parse_lines [Unparsable] = []" by (simp add: parse_lines_def parse_line_def)
  ultimately show ?thesis by simp
qed

lemma parse_lines_records: "parse_lines (map ParsesTo xs) = xs"
  by (induction xs) (simp_all add: parse_lines_def parse_line_def)

lemma load_fresh:
  "files fs (p @ [''meta.json'']) = Some (MetaJson m) \<Longrightarrow>
   files fs (p @ [''steps.jsonl'']) = Some (StepsJsonl ls) \<Longrightarrow>
   load fs (new_RunLoader p) =
     (\<lparr>runPath = p, loader_meta = Some m, loader_steps = parse_lines ls, loaded = True\<rparr>,
      Inr \<lparr>meta = m, steps = parse_lines ls, path = p\<rparr>)"
  by (simp add: load_def new_RunLoader_def existsSync_def dom_def)

text \<open>
  Claim C9, as the code has it.  For a run directory with a readable \<^verbatim>\<open>meta.json\<close>
  whose step log ends in a line that does not parse (blank lines may follow it),
  loading succeeds and returns the metadata and the steps of the lines before that
  line: the same result as for the directory without the line, and exactly the
  recorded steps, in order, when every line before it is a step record.  The result
  is the metadata, the steps and the path; nothing in it tells a run loaded this way
  from a complete one.
\<close>

theorem load_drops_malformed_final_line:
  "files fs (p @ [''meta.json'']) = Some (MetaJson m)
     \<and> files fs (p @ [''steps.jsonl'']) = Some (StepsJsonl (ls @ Unparsable # bs))
     \<and> (\<forall>b \<in> set bs. b = Blank) \<longrightarrow>
   snd (load fs (new_RunLoader p)) = Inr \<lparr>meta = m, steps = parse_lines ls, path = p\<rparr>
   \<and> snd (load (writeFileSync fs (p @ [''steps.jsonl'']) (StepsJsonl ls)) (new_RunLoader p))
       = snd (load fs (new_RunLoader p))
   \<and> (\<forall>xs. ls = map ParsesTo xs \<longrightarrow>
         snd (load fs (new_RunLoader p)) = Inr \<lparr>meta = m, steps = xs, path = p\<rparr>)"
proof (intro impI)
  assume a: "files fs (p @ [''meta.json'']) = Some (MetaJson m)
     \<and> files fs (p @ [''steps.jsonl'']) = Some (StepsJsonl (ls @ Unparsable # bs))
     \<and> (\<forall>b \<in> set bs. b = Blank)"
  then have pl: "parse_lines (ls @ Unparsable # bs) = parse_lines ls"
    by (intro parse_lines_malformed_tail) simp
  have 1: "snd (load fs (new_RunLoader p)) = Inr \<lparr>meta = m, steps = parse_lines ls, path = p\<rparr>"
    using a load_fresh[of fs p m "ls @ Unparsable # bs"] pl by simp
  let ?fs = "writeFileSync fs (p @ [''steps.jsonl'']) (StepsJsonl ls)"
  have "files ?fs (p @ [''meta.json'']) = Some (MetaJson m)"
    "files ?fs (p @ [''steps.jsonl'']) = Some (StepsJsonl ls)"
    using a by simp_all
  then have 2: "snd (load ?fs (new_RunLoader p)) = Inr \<lparr>meta = m, steps = parse_lines ls, path = p\<rparr>"
    using load_fresh[of ?fs p m ls] by simp
  show "snd (load fs (new_RunLoader p)) = Inr \<lparr>meta = m, steps = parse_lines ls, path = p\<rparr>
   \<and> snd (load (writeFileSync fs (p @ [''steps.jsonl'']) (StepsJsonl ls)) (new_RunLoader p))
       = snd (load fs (new_RunLoader p))
   \<and> (\<forall>xs. ls = map ParsesTo xs \<longrightarrow>
         snd (load fs (new_RunLoader p)) = Inr \<lparr>meta = m, steps = xs, path = p\<rparr>)"
    using 1 2 by (auto simp: parse_lines_records)
qed

theorem load_drops_malformed_final_line_witness:
  "snd (load
     (writeFileSync example_fs (path example_run @ [''steps.jsonl''])
        (StepsJsonl (map ParsesTo example_steps @ [Unparsable])))
     (new_RunLoader (path example_run)))
   = Inr \<lparr>meta = example_meta, steps = example_steps, path = path example_run\<rparr>"
proof -
  let ?fs = "writeFileSync example_fs (path example_run @ [''steps.jsonl''])
        (StepsJsonl (map ParsesTo example_steps @ [Unparsable]))"
  have "files ?fs (path example_run @ [''meta.json'']) = Some (MetaJson example_meta)
     \<and> files ?fs (path example_run @ [''steps.jsonl''])
         = Some (StepsJsonl (map ParsesTo example_steps @ Unparsable # []))
     \<and> (\<forall>b \<in> set ([] :: log_line list). b = Blank)"
    by (simp add: example_fs_def example_run_def)
  then show ?thesis
    using load_drops_malformed_final_line[of ?fs "path example_run" example_meta
        "map ParsesTo example_steps" "[]"]
    by blast
qed

text \<open>
  Claim C9 as stated fails on the report: the run loaded from the damaged step log
  and the run loaded from the intact one are the same value, so the loaded run is not
  reported as partial.
\<close>

theorem load_reports_no_partial_counterexample:
  "snd (load
     (writeFileSync example_fs (path example_run @ [''steps.jsonl''])
        (StepsJsonl (map ParsesTo example_steps @ [Unparsable])))
     (new_RunLoader (path example_run)))
   = Inr \<lparr>meta = example_meta, steps = example_steps, path = path example_run\<rparr>
   \<and> snd (load example_fs (new_RunLoader (path example_run)))
   = Inr \<lparr>meta = example_meta, steps = example_steps, path = path example_run\<rparr>"
proof -
  let ?p = "path example_run"
  let ?fs = "writeFileSync example_fs (?p @ [''steps.jsonl''])
        (StepsJsonl (map ParsesTo example_steps @ [Unparsable]))"
  have m: "files example_fs (?p @ [''meta.json'']) = Some (MetaJson example_meta)"
    and s: "files example_fs (?p @ [''steps.jsonl'']) = Some (StepsJsonl (map ParsesTo example_steps))"
    by (simp_all add: example_fs_def example_run_def)
  have m': "files ?fs (?p @ [''meta.json'']) = Some (MetaJson example_meta)"
    and s': "files ?fs (?p @ [''steps.jsonl''])
        = Some (StepsJsonl (map ParsesTo example_steps @ [Unparsable]))"
    using m by simp_all
  have "parse_lines (map ParsesTo example_steps @ [Unparsable]) = example_steps"
    using parse_lines_malformed_tail[of "[]" "map ParsesTo example_steps"]
    by (simp add: parse_lines_records)
  then show ?thesis
    using load_fresh[OF m s] load_fresh[OF m' s'] by (simp add: parse_lines_records)
qed

section \<open>Replay tools\<close>

lemma find_from_None: "\<forall>x \<in> set xs. stepType x \<noteq> ty \<Longrightarrow> find_from ty xs k = None"
  by (induction xs arbitrary: k) simp_all

lemma find_from_first:
  "i < length xs \<Longrightarrow> stepType (xs ! i) = ty \<Longrightarrow> \<forall>j < i. stepType (xs ! j) \<noteq> ty \<Longrightarrow>
   find_from ty xs k = Some (k + i, xs ! i)"
proof (induction xs arbitrary: i k)
  case Nil
  then show ?case by simp
next
  case (Cons x xs)
  show ?case
  proof (cases i)
    case 0
    then show ?thesis using Cons.prems by simp
  next
    case (Suc n)
    have x: "stepType x \<noteq> ty" using Cons.prems(3) Suc by (auto dest: spec[of _ 0])
    have "\<forall>j < n. stepType (xs ! j) \<noteq> ty"
    proof (intro allI impI)
      fix j assume "j < n"
      then have "stepType ((x # xs) ! Suc j) \<noteq> ty" using Cons.prems(3) Suc by auto
      then show "stepType (xs ! j) \<noteq> ty" by simp
    qed
    moreover have "n < length xs" "stepType (xs ! n) = ty" using Cons.prems(1,2) Suc by simp_all
    ultimately have "find_from ty xs (Suc k) = Some (Suc k + n, xs ! n)" using Cons.IH by blast
    then show ?thesis using x Suc by simp
  qed
qed

lemma findNextStep_first:
  assumes "currentStepIndex e \<le> i" and "i < length (traceSteps (trace e))"
    and "stepType (traceSteps (trace e) ! i) = ty"
    and "\<forall>j. currentStepIndex e \<le> j \<and> j < i \<longrightarrow> stepType (traceSteps (trace e) ! j) \<noteq> ty"
  shows "findNextStep e ty = (e\<lparr>currentStepIndex := i + 1\<rparr>, Some (traceSteps (trace e) ! i))"
proof -
  let ?c = "currentStepIndex e"
  let ?xs = "drop ?c (traceSteps (trace e))"
  have 1: "i - ?c < length ?xs" using assms(1,2) by simp
  have 2: "?xs ! (i - ?c) = traceSteps (trace e) ! i" using assms(1,2) by simp
  have 3: "\<forall>j < i - ?c. stepType (?xs ! j) \<noteq> ty"
  proof (intro allI impI)
    fix j assume j: "j < i - ?c"
    then have "?c \<le> ?c + j \<and> ?c + j < i" by linarith
    then have "stepType (traceSteps (trace e) ! (?c + j)) \<noteq> ty" using assms(4) by blast
    moreover have "?xs ! j = traceSteps (trace e) ! (?c + j)" using j assms(2) by simp
    ultimately show "stepType (?xs ! j) \<noteq> ty" by simp
  qed
  have "find_from ty ?xs ?c = Some (?c + (i - ?c), ?xs ! (i - ?c))"
    using 1 3 assms(3) 2 by (intro find_from_first) simp_all
  then have "find_from ty ?xs ?c = Some (i, traceSteps (trace e) ! i)"
    using assms(1) 2 by simp
  then show ?thesis by (simp add: findNextStep_def)
qed

lemma findNextStep_none:
  assumes "\<forall>j. currentStepIndex e \<le> j \<and> j < length (traceSteps (trace e))
             \<longrightarrow> stepType (traceSteps (trace e) ! j) \<noteq> ty"
  shows "findNextStep e ty = (e, None)"
proof -
  have "\<forall>x \<in> set (drop (currentStepIndex e) (traceSteps (trace e))). stepType x \<noteq> ty"
  proof
    fix x assume "x \<in> set (drop (currentStepIndex e) (traceSteps (trace e)))"
    then obtain j where j: "j < length (drop (currentStepIndex e) (traceSteps (trace e)))"
      and x: "x = drop (currentStepIndex e) (traceSteps (trace e)) ! j"
      by (auto simp: in_set_conv_nth)
    then have "x = traceSteps (trace e) ! (currentStepIndex e + j)" by simp
    moreover have "currentStepIndex e + j < length (traceSteps (trace e))" using j by simp
    ultimately show "stepType x \<noteq> ty" using assms by simp
  qed
  then show ?thesis by (simp add: findNextStep_def find_from_None)
qed

text \<open>
  Claim C3, as the code has it.  When the next recorded \<open>tool\<close> step at or after the
  cursor carries (in an input that is an object) another tool name than the one
  requested, the replay tool returns the error result (success false, result null,
  the message naming the requested tool) to its caller, the cursor has moved just
  past that recorded step, and the engine's list of divergences is as it was: no
  divergence is recorded.  The same result is returned, with cursor and divergences
  unchanged, when no \<open>tool\<close> step is left.  The call returns in both cases; nothing
  is thrown.
\<close>

theorem execute_tool_mismatch:
  "(currentStepIndex e \<le> i \<and> i < length (traceSteps (trace e))
      \<and> stepType (traceSteps (trace e) ! i) = ''tool''
      \<and> (\<forall>j. currentStepIndex e \<le> j \<and> j < i \<longrightarrow> stepType (traceSteps (trace e) ! j) \<noteq> ''tool'')
      \<and> stepInput (traceSteps (trace e) ! i) \<noteq> JNull
      \<and> get_prop (stepInput (traceSteps (trace e) ! i)) ''toolName'' \<noteq> Some (JStr toolName)
    \<longrightarrow> execute e toolName params = (e\<lparr>currentStepIndex := i + 1\<rparr>, Inr (no_recorded_output toolName))
        \<and> divergences (fst (execute e toolName params)) = divergences e)
   \<and> ((\<forall>j. currentStepIndex e \<le> j \<and> j < length (traceSteps (trace e))
            \<longrightarrow> stepType (traceSteps (trace e) ! j) \<noteq> ''tool'')
    \<longrightarrow> execute e toolName params = (e, Inr (no_recorded_output toolName)))"
proof (intro conjI impI)
  assume a: "currentStepIndex e \<le> i \<and> i < length (traceSteps (trace e))
      \<and> stepType (traceSteps (trace e) ! i) = ''tool''
      \<and> (\<forall>j. currentStepIndex e \<le> j \<and> j < i \<longrightarrow> stepType (traceSteps (trace e) ! j) \<noteq> ''tool'')
      \<and> stepInput (traceSteps (trace e) ! i) \<noteq> JNull
      \<and> get_prop (stepInput (traceSteps (trace e) ! i)) ''toolName'' \<noteq> Some (JStr toolName)"
  then have "findNextStep e ''tool'' = (e\<lparr>currentStepIndex := i + 1\<rparr>, Some (traceSteps (trace e) ! i))"
    by (intro findNextStep_first) simp_all
  then show x: "execute e toolName params = (e\<lparr>currentStepIndex := i + 1\<rparr>, Inr (no_recorded_output toolName))"
    using a by (simp add: execute_def)
  show "divergences (fst (execute e toolName params)) = divergences e" unfolding x by simp
next
  assume "\<forall>j. currentStepIndex e \<le> j \<and> j < length (traceSteps (trace e))
            \<longrightarrow> stepType (traceSteps (trace e) ! j) \<noteq> ''tool''"
  then have "findNextStep e ''tool'' = (e, None)" by (rule findNextStep_none)
  then show "execute e toolName params = (e, Inr (no_recorded_output toolName))"
    by (simp add: execute_def)
qed

theorem execute_tool_mismatch_witness:
  "execute (new_ReplayEngine [] example_trace) ''book_restaurant'' (JObj [])
     = ((new_ReplayEngine [] example_trace)\<lparr>currentStepIndex := 1\<rparr>,
        Inr (no_recorded_output ''book_restaurant''))"
proof -
  let ?e = "new_ReplayEngine [] example_trace"
  have "currentStepIndex ?e \<le> 0 \<and> 0 < length (traceSteps (trace ?e))
      \<and> stepType (traceSteps (trace ?e) ! 0) = ''tool''
      \<and> (\<forall>j. currentStepIndex ?e \<le> j \<and> j < 0 \<longrightarrow> stepType (traceSteps (trace ?e) ! j) \<noteq> ''tool'')
      \<and> stepInput (traceSteps (trace ?e) ! 0) \<noteq> JNull
      \<and> get_prop (stepInput (traceSteps (trace ?e) ! 0)) ''toolName'' \<noteq> Some (JStr ''book_restaurant'')"
    by (simp add: new_ReplayEngine_def example_trace_def)
  then show ?thesis
    using execute_tool_mismatch[of ?e 0 "''book_restaurant''" "JObj []"] by simp
qed

text \<open>
  Claim C3 as stated fails on the divergence: the trace records a call of
  \<open>search_restaurants\<close>, the tool \<open>book_restaurant\<close> is invoked, the caller gets the
  error result, and the list of divergences is still empty.
\<close>

theorem execute_records_no_divergence_counterexample:
  "snd (execute (new_ReplayEngine [] example_trace) ''book_restaurant'' (JObj []))
     = Inr (no_recorded_output ''book_restaurant'')
   \<and> divergences (fst (execute (new_ReplayEngine [] example_trace) ''book_restaurant'' (JObj []))) = []"
  by (simp add: execute_def findNextStep_def new_ReplayEngine_def example_trace_def)

section \<open>Replay\<close>

lemma replay_loop_frame:
  "trace (replay_loop e ss) = trace e \<and> divergences (replay_loop e ss) = divergences e
   \<and> currentStepIndex (replay_loop e ss) = currentStepIndex e + length ss
   \<and> length (rec_steps (replayRecorder (replay_loop e ss)))
       = length (rec_steps (replayRecorder e)) + length ss
   \<and> replayState (replay_loop e ss) = (if ss = [] then replayState e else stateSnapshot (last ss))"
  by (induction ss arbitrary: e) (simp_all add: replayStep_def recordStep_def)

lemma replay_loop_steps:
  "map (\<lambda>s. (stepType s, stepInput s, stepOutput s, stateSnapshot s, stepMetadata s))
       (rec_steps (replayRecorder (replay_loop e ss)))
   = map (\<lambda>s. (stepType s, stepInput s, stepOutput s, stateSnapshot s, stepMetadata s))
       (rec_steps (replayRecorder e))
     @ map (\<lambda>s. (stepType s, stepInput s, stepOutput s, stateSnapshot s,
                   Some \<lparr>replayed = True, originalStepNumber = stepNumber s\<rparr>)) ss"
  by (induction ss arbitrary: e) (simp_all add: replayStep_def recordStep_def)

lemma compare_keys_same:
  "\<forall>k \<in> set keys. map_of s1 k = map_of s2 k \<Longrightarrow> compare_keys e s1 s2 keys = (e, True)"
  by (induction keys) simp_all

text \<open>
  Replay of a trace against itself.  The replay trace has as many steps as the
  original.  When the trace has a step and either records no final state or records
  one that agrees with the last step's snapshot on \<open>status\<close>, \<open>currentStep\<close> and
  \<open>goal\<close>, the replay reports no divergence and a state match, and the replayed state
  agrees with the original final state on the three keys.
\<close>

theorem replay_identity:
  "traceSteps t \<noteq> []
     \<and> (\<forall>f. finalState t = Some f \<longrightarrow>
           (\<forall>k \<in> set [''status'', ''currentStep'', ''goal''].
              map_of f k = map_of (stateSnapshot (last (traceSteps t))) k))
   \<longrightarrow> res_divergences (snd (replay (new_ReplayEngine initial t))) = []
     \<and> res_success (snd (replay (new_ReplayEngine initial t)))
     \<and> stateMatch (snd (replay (new_ReplayEngine initial t)))
     \<and> replay_count (stepCount (snd (replay (new_ReplayEngine initial t)))) = length (traceSteps t)
     \<and> match (stepCount (snd (replay (new_ReplayEngine initial t))))
     \<and> res_finalState (snd (replay (new_ReplayEngine initial t))) = stateSnapshot (last (traceSteps t))"
proof (intro impI)
  assume a: "traceSteps t \<noteq> []
     \<and> (\<forall>f. finalState t = Some f \<longrightarrow>
           (\<forall>k \<in> set [''status'', ''currentStep'', ''goal''].
              map_of f k = map_of (stateSnapshot (last (traceSteps t))) k))"
  let ?e0 = "new_ReplayEngine initial t"
  let ?e1 = "?e0\<lparr>currentStepIndex := 0, divergences := []\<rparr>"
  obtain firstStep rest where ts: "traceSteps t = firstStep # rest"
    using a by (cases "traceSteps t") auto
  let ?e2 = "?e1\<lparr>replayState := stateSnapshot firstStep\<rparr>"
  let ?e3 = "replay_loop ?e2 (traceSteps t)"
  let ?last = "stateSnapshot (last (traceSteps t))"
  have tr: "trace ?e3 = t" and dv: "divergences ?e3 = []"
    and len: "length (rec_steps (replayRecorder ?e3)) = length (traceSteps t)"
    and rs: "replayState ?e3 = ?last"
    using replay_loop_frame[of ?e2 "traceSteps t"] a
    by (simp_all add: new_ReplayEngine_def new_TraceRecorder_def)
  let ?orig = "case finalState t of Some f \<Rightarrow> Some f | None \<Rightarrow> Some ?last"
  have cmp: "compareStates ?e3 ?orig ?last = (?e3, True)"
  proof (cases "finalState t")
    case None
    then show ?thesis by (simp add: compareStates_def compare_keys_same)
  next
    case (Some f)
    then have "\<forall>k \<in> set [''status'', ''currentStep'', ''goal'']. map_of f k = map_of ?last k"
      using a by blast
    then have "compare_keys ?e3 f ?last [''status'', ''currentStep'', ''goal''] = (?e3, True)"
      by (rule compare_keys_same)
    then show ?thesis using Some by (simp add: compareStates_def)
  qed
  have r: "replay ?e0 =
      (?e3,
       \<lparr>res_success = True, originalTrace = t,
        replayTrace = (finalize (replayRecorder ?e3) ?last ''completed'')
          \<lparr>traceStatus := ''replayed'',
           metadata := (metadata (finalize (replayRecorder ?e3) ?last ''completed''))
              \<lparr>replayedFrom := Some (traceId t)\<rparr>\<rparr>,
        res_finalState = ?last, stateMatch = True,
        stepCount = \<lparr>original = length (traceSteps t), replay_count = length (traceSteps t),
                     match = True\<rparr>,
        res_divergences = []\<rparr>)"
  proof -
    have e2: "(case traceSteps (trace ?e1) of [] \<Rightarrow> ?e1
               | firstStep # rest \<Rightarrow> ?e1\<lparr>replayState := stateSnapshot firstStep\<rparr>) = ?e2"
      using ts by (simp add: new_ReplayEngine_def)
    have t2: "traceSteps (trace ?e2) = traceSteps t" by (simp add: new_ReplayEngine_def)
    have of: "(case finalState (trace ?e3) of Some f \<Rightarrow> Some f
               | None \<Rightarrow> (if traceSteps (trace ?e3) = [] then None
                          else Some (stateSnapshot (last (traceSteps (trace ?e3)))))) = ?orig"
      using a tr by (simp split: option.splits)
    show ?thesis
      unfolding replay_def Let_def e2 t2 of rs cmp
      by (simp add: tr dv rs len finalize_def)
  qed
  show "res_divergences (snd (replay ?e0)) = []
     \<and> res_success (snd (replay ?e0))
     \<and> stateMatch (snd (replay ?e0))
     \<and> replay_count (stepCount (snd (replay ?e0))) = length (traceSteps t)
     \<and> match (stepCount (snd (replay ?e0)))
     \<and> res_finalState (snd (replay ?e0)) = ?last"
    unfolding r by simp
qed

theorem replay_identity_witness:
  "res_divergences (snd (replay (new_ReplayEngine [] (example_trace\<lparr>finalState := None\<rparr>)))) = []
   \<and> stateMatch (snd (replay (new_ReplayEngine [] (example_trace\<lparr>finalState := None\<rparr>))))
   \<and> replay_count (stepCount (snd (replay (new_ReplayEngine [] (example_trace\<lparr>finalState := None\<rparr>))))) = 1"
proof -
  let ?t = "example_trace\<lparr>finalState := None\<rparr>"
  have "traceSteps ?t \<noteq> []
     \<and> (\<forall>f. finalState ?t = Some f \<longrightarrow>
           (\<forall>k \<in> set [''status'', ''currentStep'', ''goal''].
              map_of f k = map_of (stateSnapshot (last (traceSteps ?t))) k))"
    by (simp add: example_trace_def)
  then have "res_divergences (snd (replay (new_ReplayEngine [] ?t))) = []
     \<and> stateMatch (snd (replay (new_ReplayEngine [] ?t)))
     \<and> replay_count (stepCount (snd (replay (new_ReplayEngine [] ?t)))) = length (traceSteps ?t)"
    using replay_identity[of ?t "[]"] by blast
  then show ?thesis by (simp add: example_trace_def)
qed

text \<open>
  Claim C2 at a failing input.  The trace has one step, whose snapshot has status
  \<open>running\<close>, and a recorded final state with status \<open>completed\<close>.  Replayed
  unmodified against itself it ends in the snapshot of its last step, the comparison
  with the recorded final state finds the status different, and one divergence of
  kind \<open>state_mismatch\<close> is reported; the replay counts as failed.
\<close>

theorem replay_final_state_mismatch:
  "res_divergences (snd (replay (new_ReplayEngine [] example_trace)))
     = [\<lparr>div_stepNumber = 1, div_type = state_mismatch, expected = Some (JStr ''completed''),
         actual = Some (JStr ''running''), message = ''State mismatch in field: status''\<rparr>]
   \<and> \<not> res_success (snd (replay (new_ReplayEngine [] example_trace)))
   \<and> \<not> stateMatch (snd (replay (new_ReplayEngine [] example_trace)))
   \<and> replay_count (stepCount (snd (replay (new_ReplayEngine [] example_trace)))) = 1"
  by (simp add: replay_def Let_def new_ReplayEngine_def new_TraceRecorder_def example_trace_def
      replayStep_def recordStep_def finalize_def compareStates_def)

end
